theory Spec2Isabelle
  imports Complex_Main "HOL-Library.Word" "HOL-Library.Signed_Division" "HOL-Library.Monad_Syntax"
    "HOL-Library.Multiset"
begin

section \<open>Records\<close>

text \<open>
  The salary field is a C \<^verbatim>\<open>float\<close>. The functions below only copy and compare
  salaries, so a float is modelled by its position on the extended number line: not a
  number, the two infinities, negative zero, or a finite value (every finite float is a
  rational; \<open>Fin 0\<close> is positive zero). The comparisons are the IEEE ones the C operators
  \<^verbatim>\<open><\<close> and \<^verbatim>\<open>>=\<close> compute: false as soon as one operand is not a number,
  and the two zeros compare equal.
\<close>

datatype cfloat = NaN | NegInf | NegZero | Fin rat | PosInf

fun frank :: "cfloat \<Rightarrow> int" where
  "frank NegInf = - 1"
| "frank PosInf = 1"
| "frank _ = 0"

fun fval :: "cfloat \<Rightarrow> rat" where
  "fval (Fin r) = r"
| "fval _ = 0"

definition flt :: "cfloat \<Rightarrow> cfloat \<Rightarrow> bool" where
  "flt a b \<longleftrightarrow> a \<noteq> NaN \<and> b \<noteq> NaN \<and>
     (frank a < frank b \<or> frank a = frank b \<and> fval a < fval b)"

definition fge :: "cfloat \<Rightarrow> cfloat \<Rightarrow> bool" where
  "fge a b \<longleftrightarrow> a \<noteq> NaN \<and> b \<noteq> NaN \<and>
     (frank b < frank a \<or> frank a = frank b \<and> fval b \<le> fval a)"

text \<open>
  \<^verbatim>\<open>typedef struct { int id; char name[50]; char email[100]; char skills[200];
  float salary; } Developer;\<close>
  The identity is a 32-bit \<^verbatim>\<open>int\<close>, read as signed by \<open>sint\<close>. A text field is the
  content of its character array; the C string it holds ends before the first NUL
  (or at the end of the list).
\<close>

record Developer =
  id_d :: "32 word"
  name :: string
  email :: string
  skills :: string
  salary :: cfloat

definition cstr :: "string \<Rightarrow> string" where
  "cstr s = takeWhile (\<lambda>c. c \<noteq> CHR 0x00) s"

fun strlen :: "string \<Rightarrow> nat" where
  "strlen [] = 0"
| "strlen (x # xs) = (if x = CHR 0x00 then 0 else Suc (strlen xs))"

text \<open>\<open>strchr\<close> gives the offset of the first occurrence, \<open>None\<close> for the null pointer.\<close>

fun strchr :: "string \<Rightarrow> char \<Rightarrow> nat option" where
  "strchr [] c = (if c = CHR 0x00 then Some 0 else None)"
| "strchr (x # xs) c =
     (if x = c then Some 0
      else if x = CHR 0x00 then None
      else map_option Suc (strchr xs c))"

section \<open>Sequential store (linked list)\<close>

text \<open>
  The chain of nodes reachable from \<open>head\<close> is the list of the records they hold, first
  node first. \<open>safeMalloc\<close> returns a fresh block or ends the process; the model follows
  the runs in which the process goes on, where every allocation succeeded. The counter
  \<open>size\<close> of the list is a C int that counts the nodes; none of the functions below
  reads it, and it is an integer here. The status lines printed by \<open>printf\<close> change
  neither a store nor a result and are left out.
\<close>

record LinkedList =
  head :: "Developer list"
  size_l :: int

definition createLinkedList :: LinkedList where
  "createLinkedList = \<lparr>head = [], size_l = 0\<rparr>"

definition insertDeveloper :: "LinkedList \<Rightarrow> Developer \<Rightarrow> LinkedList" where
  "insertDeveloper list dev = list\<lparr>head := dev # head list, size_l := size_l list + 1\<rparr>"

text \<open>The loop of \<open>findDeveloperById\<close> over \<open>current\<close>.\<close>

fun find_from :: "Developer list \<Rightarrow> 32 word \<Rightarrow> Developer option" where
  "find_from [] i = None"
| "find_from (d # rest) i = (if id_d d = i then Some d else find_from rest i)"

definition findDeveloperById :: "LinkedList \<Rightarrow> 32 word \<Rightarrow> Developer option" where
  "findDeveloperById list i = find_from (head list) i"




section \<open>Validation and safe insertion\<close>

text \<open>The argument of \<open>validateDeveloper\<close> is a pointer: \<open>None\<close> is the null pointer.\<close>

fun validateDeveloper :: "Developer option \<Rightarrow> bool" where
  "validateDeveloper None = False"
| "validateDeveloper (Some dev) =
     (if sint (id_d dev) \<le> 0 then False
      else if strlen (name dev) = 0 then False
      else if strlen (email dev) = 0 then False
      else if flt (salary dev) (Fin 0) then False
      else if strchr (email dev) CHR ''@'' = None then False
      else True)"

text \<open>The returned int and the list after the call.\<close>

definition safeDeveloperInsert :: "LinkedList \<Rightarrow> Developer \<Rightarrow> int \<times> LinkedList" where
  "safeDeveloperInsert list dev =
     (if \<not> validateDeveloper (Some dev) then (- 1, list)
      else if findDeveloperById list (id_d dev) \<noteq> None then (- 1, list)
      else (0, insertDeveloper list dev))"

text \<open>The sample records of \<open>main\<close>.\<close>

definition dev1 :: Developer where
  "dev1 = \<lparr>id_d = 1, name = ''Bodheesh VC'', email = ''bodheesh@example.com'',
     skills = ''JavaScript,TypeScript,React,Node.js,MongoDB'', salary = Fin 85000\<rparr>"

definition dev2 :: Developer where
  "dev2 = \<lparr>id_d = 2, name = ''Alice Johnson'', email = ''alice@example.com'',
     skills = ''Java,Spring Boot,MySQL,AWS'', salary = Fin 90000\<rparr>"

definition dev3 :: Developer where
  "dev3 = \<lparr>id_d = 3, name = ''Bob Smith'', email = ''bob@example.com'',
     skills = ''Python,Django,PostgreSQL,Docker'', salary = Fin 82000\<rparr>"

definition dev4 :: Developer where
  "dev4 = \<lparr>id_d = 4, name = ''Carol Davis'', email = ''carol@example.com'',
     skills = ''C#,.NET,SQL Server,Azure'', salary = Fin 88000\<rparr>"

section \<open>Hash index\<close>

text \<open>
  \<^verbatim>\<open>#define HASH_TABLE_SIZE 101\<close>, an int constant. The table is an array of
  \<open>HASH_TABLE_SIZE\<close> chains; a chain is the list of its nodes, first node first.
\<close>

definition HASH_TABLE_SIZE :: int where
  "HASH_TABLE_SIZE = 101"

record HashNode =
  key :: "32 word"
  value_n :: Developer

record HashTable =
  buckets :: "HashNode list list"

text \<open>
  \<^verbatim>\<open>unsigned int hash(int key) { return key % HASH_TABLE_SIZE; }\<close>
  The remainder is taken on ints, where C truncates the quotient towards zero (\<open>smod\<close>:
  the result has the sign of \<open>key\<close>); returning it converts it to unsigned int, that is
  modulo \<open>2 ^ 32\<close>.
\<close>

definition hash :: "32 word \<Rightarrow> 32 word" where
  "hash k = word_of_int (sint k smod HASH_TABLE_SIZE)"

definition createHashTable :: HashTable where
  "createHashTable = \<lparr>buckets = replicate (nat HASH_TABLE_SIZE) []\<rparr>"

text \<open>
  An index outside the array is undefined behaviour in C: the model has no table after
  it, the result is \<open>None\<close>.
\<close>

definition hashInsert :: "HashTable \<Rightarrow> 32 word \<Rightarrow> Developer \<Rightarrow> HashTable option" where
  "hashInsert table k dev =
     (let index = unat (hash k) in
      if index < length (buckets table)
      then Some (table\<lparr>buckets :=
             (buckets table)[index := \<lparr>key = k, value_n = dev\<rparr> # buckets table ! index]\<rparr>)
      else None)"

text \<open>The loop of \<open>hashSearch\<close> over \<open>current\<close>.\<close>

fun search_from :: "HashNode list \<Rightarrow> 32 word \<Rightarrow> Developer option" where
  "search_from [] k = None"
| "search_from (n # rest) k = (if key n = k then Some (value_n n) else search_from rest k)"

text \<open>
  The outer \<open>None\<close> is the undefined behaviour of an index outside the array; inside,
  \<open>None\<close> is the null pointer of "not found".
\<close>

definition hashSearch :: "HashTable \<Rightarrow> 32 word \<Rightarrow> Developer option option" where
  "hashSearch table k =
     (let index = unat (hash k) in
      if index < length (buckets table)
      then Some (search_from (buckets table ! index) k)
      else None)"

section \<open>Indexed store (dynamic array)\<close>

text \<open>
  The block behind \<open>developers\<close> is the list of its slots; a slot that was never written
  holds \<open>None\<close>. Reading \<open>arr[k]\<close> gives \<open>None\<close> when \<open>k\<close> is outside the block or the
  slot was never written, and writing outside the block gives no block: both are
  undefined behaviour in C, and every function below that meets one stops with \<open>None\<close>.
  Indices are C ints; an index computation that would overflow goes with an access
  outside the block, so they are integers here.
\<close>

type_synonym buffer = "Developer option list"

definition get_at :: "buffer \<Rightarrow> int \<Rightarrow> Developer option" where
  "get_at arr k = (if 0 \<le> k \<and> k < int (length arr) then arr ! nat k else None)"

definition set_at :: "buffer \<Rightarrow> int \<Rightarrow> Developer \<Rightarrow> buffer option" where
  "set_at arr k v = (if 0 \<le> k \<and> k < int (length arr) then Some (arr[nat k := Some v]) else None)"

text \<open>
  \<open>capacity\<close> and \<open>size\<close> are 32-bit ints. An int multiplication or addition whose
  result is outside the range of int is undefined behaviour in C: it gives \<open>None\<close>.
\<close>

definition INT_MAX :: int where
  "INT_MAX = 2147483647"

definition INT_MIN :: int where
  "INT_MIN = - 2147483648"

definition int_mul :: "int \<Rightarrow> int \<Rightarrow> int option" where
  "int_mul a b = (if INT_MIN \<le> a * b \<and> a * b \<le> INT_MAX then Some (a * b) else None)"

definition int_add :: "int \<Rightarrow> int \<Rightarrow> int option" where
  "int_add a b = (if INT_MIN \<le> a + b \<and> a + b \<le> INT_MAX then Some (a + b) else None)"

record DynamicArray =
  developers :: buffer
  capacity :: int
  size_a :: int

text \<open>
  A negative \<open>initialCapacity\<close> converts to a \<open>size_t\<close> no allocation can serve:
  \<open>safeMalloc\<close> ends the process.
\<close>

definition createDynamicArray :: "int \<Rightarrow> DynamicArray option" where
  "createDynamicArray initialCapacity =
     (if initialCapacity < 0 then None
      else Some \<lparr>developers = replicate (nat initialCapacity) None,
                 capacity = initialCapacity, size_a = 0\<rparr>)"

text \<open>
  \<open>realloc\<close> to \<open>n\<close> slots keeps the content up to the smaller of the two sizes; the new
  slots were never written. A negative \<open>n\<close> is a size no allocation can serve, where
  \<open>resizeArray\<close> ends the process.
\<close>

definition realloc_buf :: "buffer \<Rightarrow> int \<Rightarrow> buffer option" where
  "realloc_buf buf n =
     (if n < 0 then None
      else Some (take (nat n) buf @ replicate (nat n - length buf) None))"

definition resizeArray :: "DynamicArray \<Rightarrow> DynamicArray option" where
  "resizeArray arr = do {
     newCapacity \<leftarrow> int_mul (capacity arr) 2;
     newArray \<leftarrow> realloc_buf (developers arr) newCapacity;
     Some (arr\<lparr>developers := newArray, capacity := newCapacity\<rparr>)
   }"

definition addDeveloper :: "DynamicArray \<Rightarrow> Developer \<Rightarrow> DynamicArray option" where
  "addDeveloper arr dev = do {
     arr \<leftarrow> (if size_a arr \<ge> capacity arr then resizeArray arr else Some arr);
     buf \<leftarrow> set_at (developers arr) (size_a arr) dev;
     size' \<leftarrow> int_add (size_a arr) 1;
     Some (arr\<lparr>developers := buf, size_a := size'\<rparr>)
   }"

text \<open>Appending a sequence of records one after the other, as the loop in \<open>main\<close> does.\<close>

fun addDevelopers :: "DynamicArray \<Rightarrow> Developer list \<Rightarrow> DynamicArray option" where
  "addDevelopers arr [] = Some arr"
| "addDevelopers arr (d # ds) = do { arr \<leftarrow> addDeveloper arr d; addDevelopers arr ds }"

section \<open>Quick sort\<close>

text \<open>
  The \<open>for\<close> loop of \<open>partition\<close>, with the array, \<open>i\<close> and \<open>j\<close> as its state. The three
  assignments of the swap read \<open>arr[i]\<close> and \<open>arr[j]\<close> and write both.
\<close>

function partition_loop :: "buffer \<Rightarrow> cfloat \<Rightarrow> int \<Rightarrow> int \<Rightarrow> int \<Rightarrow> (buffer \<times> int) option" where
  "partition_loop arr pivot high i j =
     (if j \<le> high - 1 then do {
        aj \<leftarrow> get_at arr j;
        if fge (salary aj) pivot then do {
          let i = i + 1;
          temp \<leftarrow> get_at arr i;
          aj \<leftarrow> get_at arr j;
          arr \<leftarrow> set_at arr i aj;
          arr \<leftarrow> set_at arr j temp;
          partition_loop arr pivot high i (j + 1)
        } else partition_loop arr pivot high i (j + 1)
      } else Some (arr, i))"
  by pat_completeness auto
termination
  by (relation "measure (\<lambda>(arr, pivot, high, i, j). nat (high - j))") auto

text \<open>\<open>partition\<close>: the array after the call and the returned index.\<close>

definition partition_arr :: "buffer \<Rightarrow> int \<Rightarrow> int \<Rightarrow> (buffer \<times> int) option" where
  "partition_arr arr low high = do {
     ah \<leftarrow> get_at arr high;
     let pivot = salary ah;
     (arr, i) \<leftarrow> partition_loop arr pivot high (low - 1) low;
     temp \<leftarrow> get_at arr (i + 1);
     ah \<leftarrow> get_at arr high;
     arr \<leftarrow> set_at arr (i + 1) ah;
     arr \<leftarrow> set_at arr high temp;
     Some (arr, i + 1)
   }"

text \<open>The recursion of \<open>quickSort\<close>; that it ends on every input is proved below.\<close>

function quickSort :: "buffer \<Rightarrow> int \<Rightarrow> int \<Rightarrow> buffer option" where
  "quickSort arr low high =
     (if low < high then do {
        (arr, pi') \<leftarrow> partition_arr arr low high;
        arr \<leftarrow> quickSort arr low (pi' - 1);
        quickSort arr (pi' + 1) high
      } else Some arr)"
  by pat_completeness auto

definition sortDevelopersBySalary :: "DynamicArray \<Rightarrow> DynamicArray option" where
  "sortDevelopersBySalary arr =
     (if size_a arr > 1 then do {
        buf \<leftarrow> quickSort (developers arr) 0 (size_a arr - 1);
        Some (arr\<lparr>developers := buf\<rparr>)
      } else Some arr)"

section \<open>Notions used in the statements\<close>

text \<open>
  An indexed store is well formed when the block has \<open>capacity\<close> slots, the size is
  between 0 and the capacity, and the slots below the size hold records.
\<close>

definition wf_array :: "DynamicArray \<Rightarrow> bool" where
  "wf_array a \<longleftrightarrow>
     int (length (developers a)) = capacity a \<and> 0 \<le> size_a a \<and> size_a a \<le> capacity a \<and>
     (\<forall>k. 0 \<le> k \<and> k < size_a a \<longrightarrow> get_at (developers a) k \<noteq> None)"

text \<open>The stored records, in index order.\<close>

definition stored :: "DynamicArray \<Rightarrow> Developer list" where
  "stored a = map the (take (nat (size_a a)) (developers a))"

text \<open>
  \<open>perm_in S arr arr'\<close>: the block \<open>arr'\<close> has the slots of \<open>arr\<close> rearranged, every slot
  outside the index set \<open>S\<close> is as before, and every slot inside \<open>S\<close> comes from inside \<open>S\<close>.
\<close>

definition perm_in :: "int set \<Rightarrow> buffer \<Rightarrow> buffer \<Rightarrow> bool" where
  "perm_in S arr arr' \<longleftrightarrow>
     length arr' = length arr \<and> mset arr' = mset arr \<and>
     (\<forall>k. k \<notin> S \<longrightarrow> get_at arr' k = get_at arr k) \<and>
     (\<forall>k\<in>S. \<exists>k'\<in>S. get_at arr' k = get_at arr k')"

text \<open>A slot holds a record whose salary passes, or fails, the test \<^verbatim>\<open>>= pivot\<close>.\<close>

definition slot_ge :: "cfloat \<Rightarrow> Developer option \<Rightarrow> bool" where
  "slot_ge p x \<longleftrightarrow> (\<exists>d. x = Some d \<and> fge (salary d) p)"

definition slot_lt :: "cfloat \<Rightarrow> Developer option \<Rightarrow> bool" where
  "slot_lt p x \<longleftrightarrow> (\<exists>d. x = Some d \<and> \<not> fge (salary d) p)"

text \<open>The slots from \<open>low\<close> to \<open>high\<close> hold records whose salaries are numbers.\<close>

definition numbers_in :: "buffer \<Rightarrow> int \<Rightarrow> int \<Rightarrow> bool" where
  "numbers_in arr low high \<longleftrightarrow>
     (\<forall>k. low \<le> k \<and> k \<le> high \<longrightarrow> (\<exists>d. get_at arr k = Some d \<and> salary d \<noteq> NaN))"

text \<open>The salaries in the slots from \<open>low\<close> to \<open>high\<close> do not increase.\<close>

definition sorted_in :: "buffer \<Rightarrow> int \<Rightarrow> int \<Rightarrow> bool" where
  "sorted_in arr low high \<longleftrightarrow>
     (\<forall>k l. low \<le> k \<and> k \<le> l \<and> l \<le> high \<longrightarrow>
        (\<exists>d e. get_at arr k = Some d \<and> get_at arr l = Some e \<and> fge (salary d) (salary e)))"

section \<open>Strings and floats\<close>

lemma strlen_cstr: "strlen s = length (cstr s)"
  by (induction s) (simp_all add: cstr_def)

lemma strlen_0_iff: "strlen s = 0 \<longleftrightarrow> cstr s = []"
  by (simp add: strlen_cstr)

lemma strchr_None_iff:
  "c \<noteq> CHR 0x00 \<Longrightarrow> strchr s c = None \<longleftrightarrow> c \<notin> set (cstr s)"
  by (induction s) (auto simp: cstr_def)

lemma flt_zero_iff: "x \<noteq> NaN \<Longrightarrow> flt x (Fin 0) \<longleftrightarrow> \<not> fge x (Fin 0)"
  by (cases x) (auto simp: flt_def fge_def)

section \<open>The validator\<close>

lemma validateDeveloper_iff:
  "validateDeveloper (Some d) \<longleftrightarrow>
     0 < sint (id_d d) \<and> cstr (name d) \<noteq> [] \<and> cstr (email d) \<noteq> [] \<and>
     CHR ''@'' \<in> set (cstr (email d)) \<and> \<not> flt (salary d) (Fin 0)"
  by (auto simp: strlen_0_iff strchr_None_iff)

lemma validateDeveloper_dev1: "validateDeveloper (Some dev1)"
  by (simp add: dev1_def flt_def)

text \<open>
  C6 (as amended). For a record whose salary is a number (not NaN), \<open>validateDeveloper\<close>
  holds exactly when the identity is positive, the name is a non-empty string, the email
  is a non-empty string containing \<open>@\<close>, and the salary is at least 0. Whatever the other
  fields are, identity 0, identity -5, an empty name, an email without \<open>@\<close> and salary -1
  are rejected, and a record that passes still passes with salary 0.
\<close>

theorem validateDeveloper_spec:
  "(salary d \<noteq> NaN \<longrightarrow>
      (validateDeveloper (Some d) \<longleftrightarrow>
         0 < sint (id_d d) \<and> cstr (name d) \<noteq> [] \<and> cstr (email d) \<noteq> [] \<and>
         CHR ''@'' \<in> set (cstr (email d)) \<and> fge (salary d) (Fin 0)))
   \<and> \<not> validateDeveloper (Some (d\<lparr>id_d := 0\<rparr>))
   \<and> \<not> validateDeveloper (Some (d\<lparr>id_d := - 5\<rparr>))
   \<and> \<not> validateDeveloper (Some (d\<lparr>name := []\<rparr>))
   \<and> (CHR ''@'' \<notin> set (cstr e) \<longrightarrow> \<not> validateDeveloper (Some (d\<lparr>email := e\<rparr>)))
   \<and> \<not> validateDeveloper (Some (d\<lparr>salary := Fin (- 1)\<rparr>))
   \<and> (validateDeveloper (Some d) \<longrightarrow> validateDeveloper (Some (d\<lparr>salary := Fin 0\<rparr>)))"
proof -
  have iff: "salary d \<noteq> NaN \<longrightarrow>
      (validateDeveloper (Some d) \<longleftrightarrow>
         0 < sint (id_d d) \<and> cstr (name d) \<noteq> [] \<and> cstr (email d) \<noteq> [] \<and>
         CHR ''@'' \<in> set (cstr (email d)) \<and> fge (salary d) (Fin 0))"
    unfolding validateDeveloper_iff by (auto simp: flt_zero_iff)
  have id0: "\<not> validateDeveloper (Some (d\<lparr>id_d := 0\<rparr>))"
    by simp
  have id5: "\<not> validateDeveloper (Some (d\<lparr>id_d := - 5\<rparr>))"
    by simp
  have nm: "\<not> validateDeveloper (Some (d\<lparr>name := []\<rparr>))"
    by simp
  have em: "CHR ''@'' \<notin> set (cstr e) \<longrightarrow> \<not> validateDeveloper (Some (d\<lparr>email := e\<rparr>))"
    unfolding validateDeveloper_iff by simp
  have neg: "\<not> validateDeveloper (Some (d\<lparr>salary := Fin (- 1)\<rparr>))"
    by (simp add: flt_def)
  have zero: "validateDeveloper (Some d) \<longrightarrow> validateDeveloper (Some (d\<lparr>salary := Fin 0\<rparr>))"
    unfolding validateDeveloper_iff by (simp add: flt_def)
  from iff id0 id5 nm em neg zero show ?thesis by blast
qed

theorem validateDeveloper_spec_witness:
  "salary dev1 \<noteq> NaN \<and> validateDeveloper (Some dev1) \<and> fge (salary dev1) (Fin 0)
   \<and> CHR ''@'' \<notin> set (cstr ''bob.example.com'')
   \<and> \<not> validateDeveloper (Some (dev1\<lparr>email := ''bob.example.com''\<rparr>))
   \<and> validateDeveloper (Some (dev1\<lparr>salary := Fin 0\<rparr>))"
proof -
  have a: "salary dev1 \<noteq> NaN" by (simp add: dev1_def)
  have b: "CHR ''@'' \<notin> set (cstr ''bob.example.com'')" by (simp add: cstr_def)
  have c: "validateDeveloper (Some dev1)" by (rule validateDeveloper_dev1)
  show ?thesis
    using a b c validateDeveloper_spec [of dev1 "''bob.example.com''"] by blast
qed

text \<open>
  The claim as stated fails on a record whose salary is NaN: \<^verbatim>\<open>dev->salary < 0\<close> is
  false for it, so the record passes, although its salary is not at least 0.
\<close>

theorem validateDeveloper_nan_counterexample:
  "\<not> (validateDeveloper (Some (dev1\<lparr>salary := NaN\<rparr>)) \<longleftrightarrow>
        0 < sint (id_d (dev1\<lparr>salary := NaN\<rparr>)) \<and> cstr (name (dev1\<lparr>salary := NaN\<rparr>)) \<noteq> [] \<and>
        cstr (email (dev1\<lparr>salary := NaN\<rparr>)) \<noteq> [] \<and>
        CHR ''@'' \<in> set (cstr (email (dev1\<lparr>salary := NaN\<rparr>))) \<and>
        fge (salary (dev1\<lparr>salary := NaN\<rparr>)) (Fin 0))"
  by (simp add: dev1_def flt_def fge_def)

section \<open>The sequential store\<close>


lemma find_from_None_iff: "find_from ds i = None \<longleftrightarrow> (\<forall>d\<in>set ds. id_d d \<noteq> i)"
  by (induction ds) auto







section \<open>Safe insertion\<close>

text \<open>
  C1 (as amended). The int returned by \<open>safeDeveloperInsert\<close> tells success from failure:
  it is 0, and the record is inserted, exactly when the record is valid and its identity
  is not in the list; it is -1, and the list is as before, both for an invalid record and
  for a duplicate identity.
\<close>

theorem safeDeveloperInsert_outcome:
  "(\<not> validateDeveloper (Some d) \<longrightarrow> safeDeveloperInsert l d = (- 1, l))
   \<and> (validateDeveloper (Some d) \<and> (\<exists>e\<in>set (head l). id_d e = id_d d) \<longrightarrow>
        safeDeveloperInsert l d = (- 1, l))
   \<and> (validateDeveloper (Some d) \<and> (\<forall>e\<in>set (head l). id_d e \<noteq> id_d d) \<longrightarrow>
        safeDeveloperInsert l d = (0, insertDeveloper l d)
        \<and> findDeveloperById (insertDeveloper l d) (id_d d) = Some d)
   \<and> (fst (safeDeveloperInsert l d) = 0 \<longleftrightarrow>
        validateDeveloper (Some d) \<and> (\<forall>e\<in>set (head l). id_d e \<noteq> id_d d))
   \<and> (fst (safeDeveloperInsert l d) = 0 \<or> fst (safeDeveloperInsert l d) = - 1)"
proof -
  have f: "findDeveloperById l (id_d d) = None \<longleftrightarrow> (\<forall>e\<in>set (head l). id_d e \<noteq> id_d d)"
    by (simp add: findDeveloperById_def find_from_None_iff)
  have n: "findDeveloperById (insertDeveloper l d) (id_d d) = Some d"
    by (simp add: findDeveloperById_def insertDeveloper_def)
  show ?thesis
    unfolding safeDeveloperInsert_def f using n by auto
qed

theorem safeDeveloperInsert_outcome_witness:
  "\<not> validateDeveloper (Some (dev2\<lparr>id_d := 0\<rparr>))
   \<and> safeDeveloperInsert (insertDeveloper createLinkedList dev1) (dev2\<lparr>id_d := 0\<rparr>)
       = (- 1, insertDeveloper createLinkedList dev1)
   \<and> validateDeveloper (Some dev1)
   \<and> (\<exists>e\<in>set (head (insertDeveloper createLinkedList dev1)). id_d e = id_d dev1)
   \<and> safeDeveloperInsert (insertDeveloper createLinkedList dev1) dev1
       = (- 1, insertDeveloper createLinkedList dev1)
   \<and> validateDeveloper (Some dev2)
   \<and> \<not> (\<exists>e\<in>set (head (insertDeveloper createLinkedList dev1)). id_d e = id_d dev2)
   \<and> safeDeveloperInsert (insertDeveloper createLinkedList dev1) dev2
       = (0, insertDeveloper (insertDeveloper createLinkedList dev1) dev2)"
proof -
  let ?s = "insertDeveloper createLinkedList dev1"
  have h: "head ?s = [dev1]" by (simp add: insertDeveloper_def createLinkedList_def)
  have a: "\<not> validateDeveloper (Some (dev2\<lparr>id_d := 0\<rparr>))" by simp
  have b: "validateDeveloper (Some dev1)" by (rule validateDeveloper_dev1)
  have c: "\<exists>e\<in>set (head ?s). id_d e = id_d dev1" by (simp add: h)
  have d: "validateDeveloper (Some dev2)" by (simp add: dev2_def flt_def)
  have e: "\<forall>e\<in>set (head ?s). id_d e \<noteq> id_d dev2"
    unfolding h by (simp add: dev1_def dev2_def)
  from safeDeveloperInsert_outcome [of "dev2\<lparr>id_d := 0\<rparr>" ?s] a
  have 1: "safeDeveloperInsert ?s (dev2\<lparr>id_d := 0\<rparr>) = (- 1, ?s)" by blast
  from safeDeveloperInsert_outcome [of dev1 ?s] b c
  have 2: "safeDeveloperInsert ?s dev1 = (- 1, ?s)" by blast
  from safeDeveloperInsert_outcome [of dev2 ?s] d e
  have 3: "safeDeveloperInsert ?s dev2 = (0, insertDeveloper ?s dev2)" by blast
  from a b c d e 1 2 3 show ?thesis by blast
qed

text \<open>
  The claim as stated fails: with the first sample record in the list, a record with
  identity 0 (invalid) and the first sample record again (valid, duplicate identity) get
  the same result -1.
\<close>

theorem safeDeveloperInsert_counterexample:
  "\<not> validateDeveloper (Some (dev2\<lparr>id_d := 0\<rparr>))
   \<and> validateDeveloper (Some dev1)
   \<and> findDeveloperById (insertDeveloper createLinkedList dev1) (id_d dev1) \<noteq> None
   \<and> \<not> (fst (safeDeveloperInsert (insertDeveloper createLinkedList dev1) (dev2\<lparr>id_d := 0\<rparr>))
          \<noteq> fst (safeDeveloperInsert (insertDeveloper createLinkedList dev1) dev1))"
  by (simp add: safeDeveloperInsert_def findDeveloperById_def insertDeveloper_def
      createLinkedList_def dev1_def dev2_def flt_def)

text \<open>
  C9. When some record of the list has the identity of \<open>d\<close>, \<open>safeDeveloperInsert\<close>
  returns the failure result -1 and the list is unchanged: the same chain of records and
  the same size.
\<close>

theorem safeDeveloperInsert_duplicate:
  assumes "\<exists>e\<in>set (head l). id_d e = id_d d"
  shows "fst (safeDeveloperInsert l d) = - 1
     \<and> snd (safeDeveloperInsert l d) = l
     \<and> head (snd (safeDeveloperInsert l d)) = head l
     \<and> size_l (snd (safeDeveloperInsert l d)) = size_l l"
proof -
  from assms have "findDeveloperById l (id_d d) \<noteq> None"
    by (auto simp: findDeveloperById_def find_from_None_iff)
  then show ?thesis by (simp add: safeDeveloperInsert_def)
qed

theorem safeDeveloperInsert_duplicate_witness:
  "(\<exists>e\<in>set (head (insertDeveloper createLinkedList dev1)). id_d e = id_d (dev2\<lparr>id_d := 1\<rparr>))
   \<and> validateDeveloper (Some (dev2\<lparr>id_d := 1\<rparr>))
   \<and> safeDeveloperInsert (insertDeveloper createLinkedList dev1) (dev2\<lparr>id_d := 1\<rparr>)
       = (- 1, insertDeveloper createLinkedList dev1)"
proof -
  have a: "\<exists>e\<in>set (head (insertDeveloper createLinkedList dev1)). id_d e = id_d (dev2\<lparr>id_d := 1\<rparr>)"
    by (simp add: insertDeveloper_def createLinkedList_def dev1_def)
  have b: "validateDeveloper (Some (dev2\<lparr>id_d := 1\<rparr>))"
    by (simp add: dev2_def flt_def)
  from safeDeveloperInsert_duplicate [OF a] a b show ?thesis
    by (simp add: prod_eq_iff)
qed

section \<open>The hash index\<close>

lemma smod_nonneg: "0 \<le> (a::int) \<Longrightarrow> a smod 101 = a mod 101"
  by (cases "a = 0") (simp_all add: signed_modulo_int_def)

lemma uint_hash_nonneg: "0 \<le> sint k \<Longrightarrow> uint (hash k) = sint k mod 101"
proof -
  assume a: "0 \<le> sint k"
  have "0 \<le> sint k mod 101" and "sint k mod 101 < 2 ^ 32" 
    by (simp_all add: pos_mod_bound [THEN less_trans])
  then have "uint (word_of_int (sint k mod 101) :: 32 word) = sint k mod 101"
    by (simp add: uint_word_of_int_eq take_bit_int_eq_self)
  with a show ?thesis by (simp add: hash_def HASH_TABLE_SIZE_def smod_nonneg)
qed

lemma unat_hash_nonneg: "0 \<le> sint k \<Longrightarrow> unat (hash k) = nat (sint k mod 101)"
  using uint_hash_nonneg [of k] by (simp add: unat_eq_nat_uint del: nat_uint_eq)

text \<open>On identities that are not negative the hash is the remainder and is below 101.\<close>

lemma hash_nonneg_bound: "0 \<le> sint k \<Longrightarrow> unat (hash k) < 101"
  by (simp add: unat_hash_nonneg nat_less_iff)

text \<open>
  On a negative identity that is not a multiple of 101 the int remainder is between -100
  and -1, and its conversion to unsigned int is at least \<open>2 ^ 32 - 100\<close>.
\<close>

lemma smod_neg_range:
  assumes "(a::int) < 0" and "\<not> 101 dvd a"
  shows "- 100 \<le> a smod 101 \<and> a smod 101 \<le> - 1"
proof -
  have "\<not> 101 dvd \<bar>a\<bar>" using assms(2) by simp
  then have "\<bar>a\<bar> mod 101 \<noteq> 0" by (simp add: dvd_eq_mod_eq_0)
  moreover have "0 \<le> \<bar>a\<bar> mod 101" "\<bar>a\<bar> mod 101 < 101" by simp_all
  ultimately have "1 \<le> \<bar>a\<bar> mod 101 \<and> \<bar>a\<bar> mod 101 \<le> 100" by linarith
  with assms(1) show ?thesis by (simp add: signed_modulo_int_def)
qed

lemma uint_word_of_int_neg:
  assumes "- 100 \<le> r" and "r \<le> - 1"
  shows "uint (word_of_int r :: 32 word) = 2 ^ 32 + r"
proof -
  have "r mod 2 ^ 32 = (r + 2 ^ 32) mod 2 ^ 32" by simp
  also have "\<dots> = r + 2 ^ 32" using assms by (intro mod_pos_pos_trivial) simp_all
  finally show ?thesis by (simp add: uint_word_of_int)
qed

lemma hash_negative_out_of_range:
  assumes "sint k < 0" and "\<not> 101 dvd sint k"
  shows "4294967196 \<le> unat (hash k)"
proof -
  from smod_neg_range [OF assms] have r: "- 100 \<le> sint k smod 101" "sint k smod 101 \<le> - 1"
    by simp_all
  from uint_word_of_int_neg [OF r] have "uint (hash k) = 2 ^ 32 + sint k smod 101"
    by (simp add: hash_def HASH_TABLE_SIZE_def)
  with r have "4294967196 \<le> uint (hash k)" by simp
  then show ?thesis by (simp add: unat_eq_nat_uint del: nat_uint_eq)
qed

text \<open>With such an identity, insert and search index the 101 buckets out of range.\<close>

lemma negative_identity_undefined:
  assumes "length (buckets t) = 101" and "sint k < 0" and "\<not> 101 dvd sint k"
  shows "hashInsert t k r = None \<and> hashSearch t k = None"
  using hash_negative_out_of_range [OF assms(2,3)] assms(1)
  by (simp add: hashInsert_def hashSearch_def)

text \<open>
  C2. The hash of the negative identity -1: the int remainder is -1, which converted to
  unsigned int is 4294967295, not a value in [0,100]; used as an index by \<open>hashInsert\<close>
  and \<open>hashSearch\<close>, it is outside the array of 101 buckets. It is neither the
  remainder of -1 modulo 101 as a number from 0 to 100, nor the remainder of the
  unsigned reading of -1.
\<close>

theorem hash_negative_identity:
  "sint (- 1 :: 32 word) smod HASH_TABLE_SIZE = - 1
   \<and> hash (- 1) = 4294967295
   \<and> \<not> unat (hash (- 1)) \<le> 100
   \<and> unat (hash (- 1)) \<noteq> nat (sint (- 1 :: 32 word) mod 101)
   \<and> unat (hash (- 1)) \<noteq> unat (- 1 :: 32 word) mod 101"
proof -
  have a: "sint (- 1 :: 32 word) smod HASH_TABLE_SIZE = - 1"
    by (simp add: HASH_TABLE_SIZE_def signed_modulo_int_def)
  have b: "hash (- 1) = 4294967295"
    by (simp add: hash_def HASH_TABLE_SIZE_def signed_modulo_int_def)
  have c: "unat (- 1 :: 32 word) mod 101 < 101" by simp
  have d: "unat (hash (- 1)) = 4294967295" by (simp add: b)
  from a b c show ?thesis unfolding d by simp
qed

lemma search_after_inserts:
  assumes len: "length (buckets t) = 101"
    and k1: "0 \<le> sint k1" and k2: "0 \<le> sint k2"
  shows "\<exists>t1 t2. hashInsert t k1 r1 = Some t1 \<and> hashInsert t1 k2 r2 = Some t2
     \<and> hashSearch t2 k2 = Some (Some r2)
     \<and> (k1 \<noteq> k2 \<longrightarrow> hashSearch t2 k1 = Some (Some r1))"
proof -
  from len k1 k2 have b: "unat (hash k1) < length (buckets t)" "unat (hash k2) < length (buckets t)"
    by (simp_all add: hash_nonneg_bound)
  then show ?thesis
    by (cases "unat (hash k1) = unat (hash k2)")
      (simp_all add: hashInsert_def hashSearch_def Let_def)
qed

text \<open>
  Two distinct identities that are not negative and share a bucket: after both inserts,
  in either order, each search returns the record inserted under its identity.
\<close>

lemma collision_nonneg:
  assumes "length (buckets t) = 101" and "0 \<le> sint k1" and "0 \<le> sint k2"
    and "k1 \<noteq> k2" and "hash k1 = hash k2"
  shows "\<exists>t1 t2. hashInsert t k1 r1 = Some t1 \<and> hashInsert t1 k2 r2 = Some t2
     \<and> hashSearch t2 k1 = Some (Some r1) \<and> hashSearch t2 k2 = Some (Some r2)"
  using search_after_inserts [OF assms(1-3), of r1 r2] assms(4) by blast

text \<open>
  An identity that is not negative, inserted twice: the search returns the record of
  the second insert.
\<close>

lemma duplicate_nonneg:
  assumes "length (buckets t) = 101" and "0 \<le> sint k"
  shows "\<exists>t1 t2. hashInsert t k r1 = Some t1 \<and> hashInsert t1 k r2 = Some t2
     \<and> hashSearch t2 k = Some (Some r2)"
  using search_after_inserts [OF assms(1) assms(2) assms(2), of r1 r2] by blast

text \<open>
  C7. The identities -1 and -102 are distinct and have the same hash, 4294967295. Both
  inserts index the array of 101 buckets out of range, so no table results in which the
  two records could be searched; the same holds for the searches. This is the defect
  of C2, the hash of a negative identity.
\<close>

theorem collision_negative_identities:
  "(- 1 :: 32 word) \<noteq> - 102
   \<and> hash (- 1) = hash (- 102)
   \<and> hashInsert createHashTable (- 1) dev1 = None
   \<and> hashInsert createHashTable (- 102) dev2 = None
   \<and> hashSearch createHashTable (- 1) = None"
proof -
  have a: "hash (- 1) = 4294967295" "hash (- 102) = 4294967295"
    by (simp_all add: hash_def HASH_TABLE_SIZE_def signed_modulo_int_def)
  then show ?thesis
    by (simp add: hashInsert_def hashSearch_def createHashTable_def HASH_TABLE_SIZE_def)
qed

text \<open>
  C8. Inserting under the negative identity -5 indexes the array of 101 buckets at
  4294967291, out of range: no table results, and neither the first nor the second
  record can be searched. This is the defect of C2, the hash of a negative identity.
\<close>

theorem duplicate_negative_identity:
  "hash (- 5) = 4294967291
   \<and> hashInsert createHashTable (- 5) dev1 = None
   \<and> hashSearch createHashTable (- 5) = None"
proof -
  have a: "hash (- 5) = 4294967291"
    by (simp add: hash_def HASH_TABLE_SIZE_def signed_modulo_int_def)
  then show ?thesis
    by (simp add: hashInsert_def hashSearch_def createHashTable_def HASH_TABLE_SIZE_def)
qed

section \<open>Array accesses and the partition loop\<close>

declare partition_loop.simps [simp del]

lemma get_at_Some_bounds: "get_at arr k = Some d \<Longrightarrow> 0 \<le> k \<and> k < int (length arr)"
  by (simp add: get_at_def split: if_splits)

lemma set_at_Some:
  "set_at arr k v = Some arr' \<Longrightarrow>
     length arr' = length arr \<and> get_at arr' = (get_at arr)(k := Some v) \<and> 0 \<le> k \<and> k < int (length arr)"
  by (auto simp: set_at_def get_at_def fun_eq_iff nth_list_update nat_eq_iff split: if_splits)

lemma set_at_defined:
  "get_at arr k = Some d \<Longrightarrow> set_at arr k v = Some (arr[nat k := Some v])"
  by (simp add: set_at_def get_at_def split: if_splits)

lemma set_at_same:
  "get_at arr k = Some d \<Longrightarrow> set_at arr k d = Some arr"
  by (simp add: set_at_def get_at_def list_update_same_conv split: if_splits)

text \<open>The three assignments of a swap.\<close>

lemma swap_slots:
  assumes a: "get_at arr a = Some x" and b: "get_at arr b = Some y"
  shows "\<exists>arr1 arr2. set_at arr a y = Some arr1 \<and> set_at arr1 b x = Some arr2
     \<and> length arr2 = length arr
     \<and> get_at arr2 = (get_at arr)(a := Some y, b := Some x)
     \<and> mset arr2 = mset arr"
proof -
  let ?arr1 = "arr[nat a := Some y]"
  let ?arr2 = "?arr1[nat b := Some x]"
  have 1: "set_at arr a y = Some ?arr1" using a by (rule set_at_defined)
  have ba: "0 \<le> a" "a < int (length arr)" "0 \<le> b" "b < int (length arr)"
    using a b by (auto dest: get_at_Some_bounds)
  have 2: "set_at ?arr1 b x = Some ?arr2"
    using ba by (simp add: set_at_def)
  have g: "get_at ?arr2 = (get_at arr)(a := Some y, b := Some x)"
    using set_at_Some [OF 1] set_at_Some [OF 2] by simp
  have xa: "arr ! nat a = Some x" and yb: "arr ! nat b = Some y"
    using a b ba by (simp_all add: get_at_def)
  have "mset ?arr2 = mset (arr[nat a := arr ! nat b, nat b := arr ! nat a])"
    by (simp add: xa yb)
  also have "\<dots> = mset arr"
    using ba by (simp add: mset_swap)
  finally have m: "mset ?arr2 = mset arr" .
  from 1 2 g m show ?thesis by simp
qed

lemma loop_exit: "\<not> j \<le> high - 1 \<Longrightarrow> partition_loop arr p high i j = Some (arr, i)"
  by (simp add: partition_loop.simps)

lemma loop_skip:
  "j \<le> high - 1 \<Longrightarrow> get_at arr j = Some aj \<Longrightarrow> \<not> fge (salary aj) p \<Longrightarrow>
     partition_loop arr p high i j = partition_loop arr p high i (j + 1)"
  by (subst partition_loop.simps) simp

lemma loop_swap:
  "j \<le> high - 1 \<Longrightarrow> get_at arr j = Some aj \<Longrightarrow> fge (salary aj) p \<Longrightarrow>
   get_at arr (i + 1) = Some t \<Longrightarrow>
   set_at arr (i + 1) aj = Some arr1 \<Longrightarrow> set_at arr1 j t = Some arr2 \<Longrightarrow>
     partition_loop arr p high i j = partition_loop arr2 p high (i + 1) (j + 1)"
  by (subst partition_loop.simps) (simp add: Let_def)

text \<open>Whenever the loop returns, the index has moved up by at most the number of rounds.\<close>

lemma partition_loop_index:
  "partition_loop arr p high i j = Some (arr', i') \<Longrightarrow> i \<le> i' \<and> i' - i \<le> max 0 (high - j)"
proof (induction arr p high i j rule: partition_loop.induct)
  case (1 arr pivot high i j)
  show ?case
  proof (cases "j \<le> high - 1")
    case False
    with "1.prems" show ?thesis by (simp add: loop_exit)
  next
    case True
    from "1.prems" True obtain aj where aj: "get_at arr j = Some aj"
      by (subst (asm) partition_loop.simps) (auto split: bind_splits)
    show ?thesis
    proof (cases "fge (salary aj) pivot")
      case False
      with "1.prems" True aj have "partition_loop arr pivot high i (j + 1) = Some (arr', i')"
        by (simp add: loop_skip)
      from "1.IH"(2) [OF True aj False this] show ?thesis by linarith
    next
      case ge: True
      from "1.prems" True aj ge obtain t arr1 arr2 where
        t: "get_at arr (i + 1) = Some t" and a1: "set_at arr (i + 1) aj = Some arr1"
        and a2: "set_at arr1 j t = Some arr2"
        by (subst (asm) partition_loop.simps) (auto simp: Let_def split: bind_splits)
      with "1.prems" True aj ge have
        "partition_loop arr2 pivot high (i + 1) (j + 1) = Some (arr', i')"
        by (simp add: loop_swap)
      from "1.IH"(1) [OF True aj ge refl t aj a1 a2 this] True show ?thesis by linarith
    qed
  qed
qed

lemma partition_arr_Some:
  "partition_arr arr low high = Some (arr', q) \<Longrightarrow>
     \<exists>ah arr1 i temp ah' arr2.
       get_at arr high = Some ah
       \<and> partition_loop arr (salary ah) high (low - 1) low = Some (arr1, i)
       \<and> get_at arr1 (i + 1) = Some temp \<and> get_at arr1 high = Some ah'
       \<and> set_at arr1 (i + 1) ah' = Some arr2 \<and> set_at arr2 high temp = Some arr'
       \<and> q = i + 1"
  by (auto simp: partition_arr_def Let_def bind_eq_Some_conv)

lemma partition_arr_index:
  assumes "partition_arr arr low high = Some (arr', q)" and "low \<le> high"
  shows "low \<le> q \<and> q \<le> high"
proof -
  from partition_arr_Some [OF assms(1)] obtain ah :: Developer and arr1 i where
    "partition_loop arr (salary ah) high (low - 1) low = Some (arr1, i)" and "q = i + 1"
    by blast
  with partition_loop_index [of arr "salary ah" high "low - 1" low arr1 i] assms(2)
  show ?thesis by simp
qed

text \<open>
  Every call of \<open>quickSort\<close> is in the domain of the recursion: the range from \<open>low\<close> to
  \<open>high\<close> gets shorter at both recursive calls.
\<close>

lemma quickSort_dom_all: "All quickSort_dom"
  by (relation "measure (\<lambda>(arr, low, high). nat (high - low))")
    (auto dest: partition_arr_index)

termination quickSort
  by (rule quickSort_dom_all)

declare quickSort.simps [simp del]

section \<open>Comparisons and rearrangements\<close>

lemma fge_refl: "x \<noteq> NaN \<Longrightarrow> fge x x"
  by (simp add: fge_def)

lemma fge_trans: "fge x y \<Longrightarrow> fge y z \<Longrightarrow> fge x z"
  by (auto simp: fge_def)

lemma fge_total: "x \<noteq> NaN \<Longrightarrow> y \<noteq> NaN \<Longrightarrow> \<not> fge x y \<Longrightarrow> fge y x"
  by (auto simp: fge_def)

lemma fge_not_NaN: "fge x y \<Longrightarrow> x \<noteq> NaN \<and> y \<noteq> NaN"
  by (simp add: fge_def)

lemma perm_in_refl: "perm_in S arr arr"
  by (auto simp: perm_in_def)

lemma perm_in_trans: "perm_in S a b \<Longrightarrow> perm_in S b c \<Longrightarrow> perm_in S a c"
  unfolding perm_in_def by (metis (no_types, lifting))

lemma perm_in_mono: "perm_in S a b \<Longrightarrow> S \<subseteq> T \<Longrightarrow> perm_in T a b"
  unfolding perm_in_def by (metis (no_types, lifting) subsetD)

lemma perm_in_swap:
  assumes "a \<in> S" and "b \<in> S" and "get_at arr a = Some x" and "get_at arr b = Some y"
    and "length arr2 = length arr" and "mset arr2 = mset arr"
    and "get_at arr2 = (get_at arr)(a := Some y, b := Some x)"
  shows "perm_in S arr arr2"
proof -
  have "\<exists>k'\<in>S. get_at arr2 k = get_at arr k'" if "k \<in> S" for k
  proof -
    consider "k = b" | "k \<noteq> b" "k = a" | "k \<noteq> b" "k \<noteq> a" by blast
    then show ?thesis
    proof cases
      case 1 with assms show ?thesis by (intro bexI [of _ a]) simp_all
    next
      case 2 with assms show ?thesis by (intro bexI [of _ b]) simp_all
    next
      case 3 with assms that show ?thesis by (intro bexI [of _ k]) simp_all
    qed
  qed
  with assms show ?thesis by (simp add: perm_in_def)
qed

lemma perm_in_all:
  "perm_in S a b \<Longrightarrow> \<forall>k\<in>S. P (get_at a k) \<Longrightarrow> k \<in> S \<Longrightarrow> P (get_at b k)"
  unfolding perm_in_def by metis

lemma perm_in_outside: "perm_in S a b \<Longrightarrow> k \<notin> S \<Longrightarrow> get_at b k = get_at a k"
  by (simp add: perm_in_def)

lemma partition_loop_spec:
  assumes "\<forall>k. i < k \<and> k < high \<longrightarrow> get_at arr k \<noteq> None"
    and "\<forall>k. i < k \<and> k < j \<longrightarrow> slot_lt p (get_at arr k)"
    and "i < j"
  shows "\<exists>arr' i'. partition_loop arr p high i j = Some (arr', i')
     \<and> perm_in {i + 1..high - 1} arr arr'
     \<and> (\<forall>k. i < k \<and> k \<le> i' \<longrightarrow> slot_ge p (get_at arr' k))
     \<and> (\<forall>k. i' < k \<and> k < high \<longrightarrow> slot_lt p (get_at arr' k))"
  using assms
proof (induction "nat (high - j)" arbitrary: arr i j rule: less_induct)
  case less
  note init = less.prems(1) and inv = less.prems(2) and ij = less.prems(3)
  show ?case
  proof (cases "j \<le> high - 1")
    case False
    then have "partition_loop arr p high i j = Some (arr, i)" by (rule loop_exit)
    moreover from False inv have "\<forall>k. i < k \<and> k < high \<longrightarrow> slot_lt p (get_at arr k)" by auto
    ultimately show ?thesis by (auto simp: perm_in_refl)
  next
    case True
    with init ij obtain aj where aj: "get_at arr j = Some aj" by fastforce
    show ?thesis
    proof (cases "fge (salary aj) p")
      case False
      have step: "partition_loop arr p high i j = partition_loop arr p high i (j + 1)"
        using True aj False by (rule loop_skip)
      have inv': "\<forall>k. i < k \<and> k < j + 1 \<longrightarrow> slot_lt p (get_at arr k)"
      proof (intro allI impI)
        fix k assume "i < k \<and> k < j + 1"
        then consider "k < j" "i < k" | "k = j" by linarith
        then show "slot_lt p (get_at arr k)"
        proof cases
          case 1 with inv show ?thesis by simp
        next
          case 2 with aj False show ?thesis by (simp add: slot_lt_def)
        qed
      qed
      have "nat (high - (j + 1)) < nat (high - j)" using True by simp
      from less.hyps [OF this init inv'] ij step show ?thesis by simp
    next
      case ge: True
      from init ij True obtain t where t: "get_at arr (i + 1) = Some t" by fastforce
      from swap_slots [OF t aj] obtain arr1 arr2 where
        a1: "set_at arr (i + 1) aj = Some arr1" and a2: "set_at arr1 j t = Some arr2"
        and len: "length arr2 = length arr"
        and g2: "get_at arr2 = (get_at arr)(i + 1 := Some aj, j := Some t)"
        and ms: "mset arr2 = mset arr"
        by blast
      have step: "partition_loop arr p high i j = partition_loop arr2 p high (i + 1) (j + 1)"
        using True aj ge t a1 a2 by (rule loop_swap)
      have p2: "perm_in {i + 1..high - 1} arr arr2"
        using ij True by (intro perm_in_swap [OF _ _ t aj len ms g2]) simp_all
      have init': "\<forall>k. i + 1 < k \<and> k < high \<longrightarrow> get_at arr2 k \<noteq> None"
        using init by (simp add: g2)
      have inv': "\<forall>k. i + 1 < k \<and> k < j + 1 \<longrightarrow> slot_lt p (get_at arr2 k)"
      proof (intro allI impI)
        fix k assume k: "i + 1 < k \<and> k < j + 1"
        then consider "k < j" | "k = j" "i + 1 < j" by linarith
        then show "slot_lt p (get_at arr2 k)"
        proof cases
          case 1 with k inv show ?thesis by (simp add: g2)
        next
          case 2
          with inv have "slot_lt p (get_at arr (i + 1))" by simp
          with 2 t show ?thesis by (simp add: g2)
        qed
      qed
      have m: "nat (high - (j + 1)) < nat (high - j)" using True by simp
      from less.hyps [OF m init' inv'] ij obtain arr' i' where
        r: "partition_loop arr2 p high (i + 1) (j + 1) = Some (arr', i')"
        and p': "perm_in {i + 1 + 1..high - 1} arr2 arr'"
        and ge': "\<forall>k. i + 1 < k \<and> k \<le> i' \<longrightarrow> slot_ge p (get_at arr' k)"
        and lt': "\<forall>k. i' < k \<and> k < high \<longrightarrow> slot_lt p (get_at arr' k)"
        by auto
      from partition_loop_index [OF r] have ii: "i + 1 \<le> i'" by simp
      have "perm_in {i + 1..high - 1} arr2 arr'"
        using p' by (rule perm_in_mono) auto
      with p2 have P: "perm_in {i + 1..high - 1} arr arr'" by (rule perm_in_trans)
      have "get_at arr' (i + 1) = get_at arr2 (i + 1)"
        using p' by (rule perm_in_outside) simp
      with ij t aj have first: "get_at arr' (i + 1) = Some aj" by (auto simp: g2)
      have GE: "\<forall>k. i < k \<and> k \<le> i' \<longrightarrow> slot_ge p (get_at arr' k)"
      proof (intro allI impI)
        fix k assume k: "i < k \<and> k \<le> i'"
        then consider "k = i + 1" | "i + 1 < k" by linarith
        then show "slot_ge p (get_at arr' k)"
        proof cases
          case 1 with first ge show ?thesis by (simp add: slot_ge_def)
        next
          case 2 with k ge' show ?thesis by simp
        qed
      qed
      from lt' ii have LT: "\<forall>k. i' < k \<and> k < high \<longrightarrow> slot_lt p (get_at arr' k)" by simp
      from step r P GE LT show ?thesis by simp
    qed
  qed
qed

section \<open>Partition and sort\<close>

lemma partition_arr_spec:
  assumes lh: "low \<le> high"
    and init: "\<forall>k. low \<le> k \<and> k \<le> high \<longrightarrow> get_at arr k \<noteq> None"
  shows "\<exists>arr' q d. partition_arr arr low high = Some (arr', q)
     \<and> low \<le> q \<and> q \<le> high
     \<and> perm_in {low..high} arr arr'
     \<and> get_at arr high = Some d \<and> get_at arr' q = Some d
     \<and> (\<forall>k. low \<le> k \<and> k < q \<longrightarrow> slot_ge (salary d) (get_at arr' k))
     \<and> (\<forall>k. q < k \<and> k \<le> high \<longrightarrow> slot_lt (salary d) (get_at arr' k))"
proof -
  from init lh obtain ah where ah: "get_at arr high = Some ah" by fastforce
  let ?p = "salary ah"
  have i1: "\<forall>k. low - 1 < k \<and> k < high \<longrightarrow> get_at arr k \<noteq> None"
    using init by simp
  have i2: "\<forall>k. low - 1 < k \<and> k < low \<longrightarrow> slot_lt ?p (get_at arr k)"
    by auto
  from partition_loop_spec [OF i1 i2] obtain arr1 i where
    loop: "partition_loop arr ?p high (low - 1) low = Some (arr1, i)"
    and p1: "perm_in {low - 1 + 1..high - 1} arr arr1"
    and ge1: "\<forall>k. low - 1 < k \<and> k \<le> i \<longrightarrow> slot_ge ?p (get_at arr1 k)"
    and lt1: "\<forall>k. i < k \<and> k < high \<longrightarrow> slot_lt ?p (get_at arr1 k)"
    by auto
  from partition_loop_index [OF loop] lh have ib: "low - 1 \<le> i" "i < high" by simp_all
  have h1: "get_at arr1 high = Some ah"
    using perm_in_outside [OF p1, of high] ah by simp
  have "get_at arr1 (i + 1) \<noteq> None"
  proof (cases "i + 1 = high")
    case True with h1 show ?thesis by simp
  next
    case False
    with ib have "i + 1 \<in> {low - 1 + 1..high - 1}" by simp
    moreover have "\<forall>k\<in>{low - 1 + 1..high - 1}. get_at arr k \<noteq> None"
      using init by simp
    ultimately show ?thesis
      using perm_in_all [OF p1, where P = "\<lambda>x. x \<noteq> None" and k = "i + 1"] by blast
  qed
  then obtain temp where temp: "get_at arr1 (i + 1) = Some temp" by blast
  from swap_slots [OF temp h1] obtain arr2 arr3 where
    a2: "set_at arr1 (i + 1) ah = Some arr2" and a3: "set_at arr2 high temp = Some arr3"
    and len: "length arr3 = length arr1"
    and g3: "get_at arr3 = (get_at arr1)(i + 1 := Some ah, high := Some temp)"
    and ms: "mset arr3 = mset arr1"
    by blast
  have res: "partition_arr arr low high = Some (arr3, i + 1)"
    by (simp add: partition_arr_def ah loop temp h1 a2 a3)
  have "perm_in {low..high} arr1 arr3"
    using ib by (intro perm_in_swap [OF _ _ temp h1 len ms g3]) simp_all
  moreover have "perm_in {low..high} arr arr1"
    using p1 by (rule perm_in_mono) auto
  ultimately have P: "perm_in {low..high} arr arr3" by (rule perm_in_trans [rotated])
  have piv: "get_at arr3 (i + 1) = Some ah"
    using temp h1 by (auto simp: g3)
  have GE: "\<forall>k. low \<le> k \<and> k < i + 1 \<longrightarrow> slot_ge ?p (get_at arr3 k)"
    using ge1 ib by (simp add: g3)
  have LT: "\<forall>k. i + 1 < k \<and> k \<le> high \<longrightarrow> slot_lt ?p (get_at arr3 k)"
  proof (intro allI impI)
    fix k assume k: "i + 1 < k \<and> k \<le> high"
    show "slot_lt ?p (get_at arr3 k)"
    proof (cases "k = high")
      case True
      with k lt1 have "slot_lt ?p (get_at arr1 (i + 1))" by simp
      with True temp show ?thesis by (simp add: g3)
    next
      case False
      with k lt1 show ?thesis by (simp add: g3)
    qed
  qed
  from res ib P ah piv GE LT show ?thesis by simp
qed

lemma numbers_in_perm:
  assumes "perm_in S a b" and "numbers_in a low high" and "S \<subseteq> {low..high}"
  shows "numbers_in b low high"
  unfolding numbers_in_def
proof (intro allI impI)
  fix k assume k: "low \<le> k \<and> k \<le> high"
  show "\<exists>d. get_at b k = Some d \<and> salary d \<noteq> NaN"
  proof (cases "k \<in> S")
    case True
    from assms(2,3) have "\<forall>k\<in>S. \<exists>d. get_at a k = Some d \<and> salary d \<noteq> NaN"
      by (auto simp: numbers_in_def)
    with assms(1) show ?thesis using True by (rule perm_in_all)
  next
    case False
    with assms(1) have "get_at b k = get_at a k" by (rule perm_in_outside)
    with assms(2) k show ?thesis by (simp add: numbers_in_def)
  qed
qed

lemma numbers_inD:
  assumes "numbers_in a low high" and "low \<le> k" and "k \<le> high" and "get_at a k = Some e"
  shows "salary e \<noteq> NaN"
proof -
  from assms(1-3) obtain d where "get_at a k = Some d" and "salary d \<noteq> NaN"
    unfolding numbers_in_def by blast
  with assms(4) show ?thesis by simp
qed

lemma numbers_in_sub:
  "numbers_in a low high \<Longrightarrow> low \<le> low' \<Longrightarrow> high' \<le> high \<Longrightarrow> numbers_in a low' high'"
  by (simp add: numbers_in_def)

lemma sorted_in_sub:
  "sorted_in a low high \<Longrightarrow> low \<le> low' \<Longrightarrow> high' \<le> high \<Longrightarrow> sorted_in a low' high'"
  by (simp add: sorted_in_def)

lemma quickSort_sorts:
  assumes "numbers_in arr low high"
  shows "\<exists>arr'. quickSort arr low high = Some arr'
     \<and> perm_in {low..high} arr arr' \<and> sorted_in arr' low high"
  using assms
proof (induction "nat (high - low)" arbitrary: arr low high rule: less_induct)
  case less
  note num = less.prems
  show ?case
  proof (cases "low < high")
    case False
    then have q: "quickSort arr low high = Some arr" by (simp add: quickSort.simps)
    have "sorted_in arr low high"
      unfolding sorted_in_def
    proof (intro allI impI)
      fix k l assume "low \<le> k \<and> k \<le> l \<and> l \<le> high"
      with False have kl: "k = l" "low \<le> k" "k \<le> high" by simp_all
      with num obtain d where "get_at arr k = Some d" "salary d \<noteq> NaN"
        by (auto simp: numbers_in_def)
      with kl show "\<exists>d e. get_at arr k = Some d \<and> get_at arr l = Some e \<and> fge (salary d) (salary e)"
        by (simp add: fge_refl)
    qed
    with q show ?thesis by (simp add: perm_in_refl)
  next
    case True
    from num have init: "\<forall>k. low \<le> k \<and> k \<le> high \<longrightarrow> get_at arr k \<noteq> None"
      by (auto simp: numbers_in_def)
    from True have "low \<le> high" by simp
    from partition_arr_spec [OF this init] obtain arr1 q d where
      part: "partition_arr arr low high = Some (arr1, q)"
      and qb: "low \<le> q" "q \<le> high"
      and p1: "perm_in {low..high} arr arr1"
      and dh: "get_at arr high = Some d" and dq: "get_at arr1 q = Some d"
      and ge1: "\<forall>k. low \<le> k \<and> k < q \<longrightarrow> slot_ge (salary d) (get_at arr1 k)"
      and lt1: "\<forall>k. q < k \<and> k \<le> high \<longrightarrow> slot_lt (salary d) (get_at arr1 k)"
      by blast
    let ?p = "salary d"
    from True have "low \<le> high" by simp
    with num have pn: "?p \<noteq> NaN" using order_refl dh by (rule numbers_inD)
    have n1: "numbers_in arr1 low high"
      using p1 num by (rule numbers_in_perm) simp
    have "nat (q - 1 - low) < nat (high - low)" using qb True by simp
    from less.hyps [OF this numbers_in_sub [OF n1]] obtain arr2 where
      s2: "quickSort arr1 low (q - 1) = Some arr2"
      and p2: "perm_in {low..q - 1} arr1 arr2" and so2: "sorted_in arr2 low (q - 1)"
      using qb by auto
    have n2: "numbers_in arr2 low high"
      using p2 n1 by (rule numbers_in_perm) (use qb in auto)
    have "nat (high - (q + 1)) < nat (high - low)" using qb True by simp
    from less.hyps [OF this numbers_in_sub [OF n2]] obtain arr3 where
      s3: "quickSort arr2 (q + 1) high = Some arr3"
      and p3: "perm_in {q + 1..high} arr2 arr3" and so3: "sorted_in arr3 (q + 1) high"
      using qb by auto
    have n3: "numbers_in arr3 low high"
      using p3 n2 by (rule numbers_in_perm) (use qb in auto)
    have res: "quickSort arr low high = Some arr3"
      using True part s2 s3 by (subst quickSort.simps) simp
    have P: "perm_in {low..high} arr arr3"
    proof -
      have "perm_in {low..high} arr1 arr2" using p2 by (rule perm_in_mono) (use qb in auto)
      moreover have "perm_in {low..high} arr2 arr3" using p3 by (rule perm_in_mono) (use qb in auto)
      ultimately show ?thesis using p1 by (blast intro: perm_in_trans)
    qed
    have left: "slot_ge ?p (get_at arr3 k)" if "low \<le> k" "k < q" for k
    proof -
      have "\<forall>k\<in>{low..q - 1}. slot_ge ?p (get_at arr1 k)" using ge1 by simp
      with p2 have "slot_ge ?p (get_at arr2 k)" by (rule perm_in_all) (use that in simp)
      moreover have "get_at arr3 k = get_at arr2 k"
        using p3 by (rule perm_in_outside) (use that in simp)
      ultimately show ?thesis by simp
    qed
    have left_eq: "get_at arr3 k = get_at arr2 k" if "k \<le> q" for k
      using p3 by (rule perm_in_outside) (use that in simp)
    have mid: "get_at arr3 q = Some d"
    proof -
      have "get_at arr2 q = get_at arr1 q" using p2 by (rule perm_in_outside) simp
      with left_eq [of q] dq show ?thesis by simp
    qed
    have right: "slot_lt ?p (get_at arr3 k)" if "q < k" "k \<le> high" for k
    proof -
      have "\<forall>k\<in>{q + 1..high}. get_at arr2 k = get_at arr1 k"
        using perm_in_outside [OF p2] by simp
      with lt1 have "\<forall>k\<in>{q + 1..high}. slot_lt ?p (get_at arr2 k)" by simp
      with p3 show ?thesis by (rule perm_in_all) (use that in simp)
    qed
    have right_le: "\<exists>e. get_at arr3 k = Some e \<and> fge ?p (salary e)" if "q < k" "k \<le> high" for k
    proof -
      from right [OF that] obtain e where e: "get_at arr3 k = Some e" "\<not> fge (salary e) ?p"
        by (auto simp: slot_lt_def)
      from that qb have "low \<le> k" by simp
      with n3 have "salary e \<noteq> NaN" using that(2) e(1) by (rule numbers_inD)
      with e pn show ?thesis by (simp add: fge_total)
    qed
    have S: "sorted_in arr3 low high"
      unfolding sorted_in_def
    proof (intro allI impI)
      fix k l assume kl: "low \<le> k \<and> k \<le> l \<and> l \<le> high"
      consider "l < q" | "k < q" "l = q" | "k < q" "q < l" | "k = q" "l = q"
        | "k = q" "q < l" | "q < k" using kl by linarith
      then show "\<exists>d e. get_at arr3 k = Some d \<and> get_at arr3 l = Some e \<and> fge (salary d) (salary e)"
      proof cases
        case 1
        with kl so2 have "\<exists>d e. get_at arr2 k = Some d \<and> get_at arr2 l = Some e
            \<and> fge (salary d) (salary e)"
          by (simp add: sorted_in_def)
        with 1 kl show ?thesis by (simp add: left_eq)
      next
        case 2
        with kl left [of k] mid show ?thesis by (auto simp: slot_ge_def)
      next
        case 3
        with kl left [of k] right_le [of l] show ?thesis
          by (auto simp: slot_ge_def intro: fge_trans)
      next
        case 4
        with mid pn show ?thesis by (simp add: fge_refl)
      next
        case 5
        with kl mid right_le [of l] show ?thesis by auto
      next
        case 6
        with kl so3 show ?thesis by (simp add: sorted_in_def)
      qed
    qed
    from res P S show ?thesis by simp
  qed
qed

section \<open>Appending\<close>

lemma get_at_append_left:
  "k < int (length xs) \<Longrightarrow> get_at (xs @ ys) k = get_at xs k"
  by (auto simp: get_at_def nth_append)

text \<open>
  One append to a well-formed store returns when the new size is an int and, if the
  block is full, twice the capacity is an int.
\<close>

lemma addDeveloper_wf:
  assumes wf: "wf_array a" and cap: "1 \<le> capacity a"
    and sz1: "size_a a + 1 \<le> INT_MAX"
    and dbl: "size_a a < capacity a \<or> capacity a * 2 \<le> INT_MAX"
  shows "\<exists>a'. addDeveloper a d = Some a' \<and> wf_array a' \<and> size_a a' = size_a a + 1
     \<and> capacity a' = (if size_a a \<ge> capacity a then capacity a * 2 else capacity a)
     \<and> get_at (developers a') (size_a a) = Some d
     \<and> (\<forall>k. k < size_a a \<longrightarrow> get_at (developers a') k = get_at (developers a) k)"
proof -
  define b where "b = (if size_a a \<ge> capacity a
     then a\<lparr>developers := developers a @ replicate (nat (capacity a)) None,
           capacity := capacity a * 2\<rparr> else a)"
  from wf have len: "int (length (developers a)) = capacity a" and sz: "0 \<le> size_a a"
    "size_a a \<le> capacity a" by (simp_all add: wf_array_def)
  have r: "(if size_a a \<ge> capacity a then resizeArray a else Some a) = Some b"
  proof (cases "size_a a \<ge> capacity a")
    case True
    have "nat (capacity a * 2) - length (developers a) = nat (capacity a)"
      using len cap by linarith
    moreover have "take (nat (capacity a * 2)) (developers a) = developers a"
      using len cap by simp
    moreover have "int_mul (capacity a) 2 = Some (capacity a * 2)"
      using True dbl cap by (simp add: int_mul_def INT_MIN_def)
    ultimately show ?thesis
      using True cap by (simp add: resizeArray_def realloc_buf_def b_def)
  next
    case False then show ?thesis by (simp add: b_def)
  qed
  have bl: "int (length (developers b)) = capacity b" and bs: "size_a b = size_a a"
    and bc: "capacity b = (if size_a a \<ge> capacity a then capacity a * 2 else capacity a)"
    and room: "size_a a < capacity b"
    using len sz cap by (auto simp: b_def)
  have bg: "get_at (developers b) k = get_at (developers a) k" if "k < size_a a" for k
    using that len sz by (auto simp: b_def get_at_append_left)
  let ?buf = "(developers b)[nat (size_a a) := Some d]"
  have s: "set_at (developers b) (size_a a) d = Some ?buf"
    using sz room bl by (simp add: set_at_def)
  from set_at_Some [OF s] have g: "get_at ?buf = (get_at (developers b))(size_a a := Some d)"
    and l: "length ?buf = length (developers b)" by simp_all
  have inc: "int_add (size_a a) 1 = Some (size_a a + 1)"
    using sz sz1 by (simp add: int_add_def INT_MIN_def)
  let ?a' = "b\<lparr>developers := ?buf, size_a := size_a a + 1\<rparr>"
  have res: "addDeveloper a d = Some ?a'"
    by (simp add: addDeveloper_def r s bs inc)
  have "wf_array ?a'"
    unfolding wf_array_def using bl sz room wf bg
    by (auto simp: g wf_array_def)
  with res bc bg show ?thesis by (simp add: g)
qed

text \<open>An append that returns has passed both range checks.\<close>

lemma addDeveloper_Some_pre:
  assumes "addDeveloper a d = Some a'"
  shows "size_a a + 1 \<le> INT_MAX \<and> (size_a a < capacity a \<or> capacity a * 2 \<le> INT_MAX)"
proof (cases "size_a a \<ge> capacity a")
  case True
  with assms obtain b where b: "resizeArray a = Some b"
    and "int_add (size_a b) 1 \<noteq> None"
    by (auto simp: addDeveloper_def bind_eq_Some_conv)
  moreover from b have "size_a b = size_a a" and "capacity a * 2 \<le> INT_MAX"
    by (auto simp: resizeArray_def int_mul_def bind_eq_Some_conv split: if_splits)
  ultimately show ?thesis by (auto simp: int_add_def split: if_splits)
next
  case False
  with assms have "int_add (size_a a) 1 \<noteq> None"
    by (auto simp: addDeveloper_def bind_eq_Some_conv)
  with False show ?thesis by (auto simp: int_add_def split: if_splits)
qed

lemma addDevelopers_wf:
  assumes "wf_array a" and "1 \<le> capacity a"
    and "2 * (size_a a + int (length ds)) \<le> INT_MAX + 2"
  shows "\<exists>a'. addDevelopers a ds = Some a' \<and> wf_array a' \<and> 1 \<le> capacity a'
     \<and> size_a a' = size_a a + int (length ds)
     \<and> (\<forall>k. k < size_a a \<longrightarrow> get_at (developers a') k = get_at (developers a) k)
     \<and> (\<forall>i<length ds. get_at (developers a') (size_a a + int i) = Some (ds ! i))"
  using assms
proof (induction ds arbitrary: a)
  case Nil
  then show ?case by simp
next
  case (Cons d ds)
  from Cons.prems(1) have sz: "0 \<le> size_a a" "size_a a \<le> capacity a"
    by (simp_all add: wf_array_def)
  from Cons.prems(3) have b2: "2 * size_a a \<le> INT_MAX" by simp
  with sz have p1: "size_a a + 1 \<le> INT_MAX" by (simp add: INT_MAX_def)
  from b2 sz have p2: "size_a a < capacity a \<or> capacity a * 2 \<le> INT_MAX" by linarith
  from addDeveloper_wf [OF Cons.prems(1,2) p1 p2, of d] obtain a1 where
    a1: "addDeveloper a d = Some a1" and wf1: "wf_array a1"
    and s1: "size_a a1 = size_a a + 1" and c1: "1 \<le> capacity a1"
    and new: "get_at (developers a1) (size_a a) = Some d"
    and old: "\<forall>k. k < size_a a \<longrightarrow> get_at (developers a1) k = get_at (developers a) k"
    using Cons.prems(2) by (auto split: if_splits)
  from Cons.prems(3) s1 have b1: "2 * (size_a a1 + int (length ds)) \<le> INT_MAX + 2" by simp
  from Cons.IH [OF wf1 c1 b1] obtain a' where
    r: "addDevelopers a1 ds = Some a'" and wf': "wf_array a'" and c': "1 \<le> capacity a'"
    and s': "size_a a' = size_a a1 + int (length ds)"
    and old': "\<forall>k. k < size_a a1 \<longrightarrow> get_at (developers a') k = get_at (developers a1) k"
    and new': "\<forall>i<length ds. get_at (developers a') (size_a a1 + int i) = Some (ds ! i)"
    by blast
  have 1: "addDevelopers a (d # ds) = Some a'" by (simp add: a1 r)
  have 2: "size_a a' = size_a a + int (length (d # ds))" by (simp add: s' s1)
  have 3: "\<forall>k. k < size_a a \<longrightarrow> get_at (developers a') k = get_at (developers a) k"
    using old old' s1 by simp
  have 4: "\<forall>i<length (d # ds). get_at (developers a') (size_a a + int i) = Some ((d # ds) ! i)"
  proof (intro allI impI)
    fix i assume i: "i < length (d # ds)"
    show "get_at (developers a') (size_a a + int i) = Some ((d # ds) ! i)"
    proof (cases i)
      case 0
      with old' s1 new show ?thesis by simp
    next
      case (Suc n)
      with i new' [rule_format, of n] s1 show ?thesis by (simp add: add.assoc)
    qed
  qed
  from 1 wf' c' 2 3 4 show ?case by blast
qed

lemma addDevelopers_Some_wf:
  assumes "wf_array a" and "1 \<le> capacity a" and "addDevelopers a ds = Some a'"
  shows "wf_array a'"
  using assms
proof (induction ds arbitrary: a)
  case Nil
  then show ?case by simp
next
  case (Cons d ds)
  from Cons.prems(3) obtain a1 where a1: "addDeveloper a d = Some a1"
    and r: "addDevelopers a1 ds = Some a'"
    by (auto simp: bind_eq_Some_conv)
  from addDeveloper_Some_pre [OF a1] have p1: "size_a a + 1 \<le> INT_MAX"
    and p2: "size_a a < capacity a \<or> capacity a * 2 \<le> INT_MAX" by simp_all
  from addDeveloper_wf [OF Cons.prems(1,2) p1 p2, of d] a1 Cons.prems(2)
  have "wf_array a1" and "1 \<le> capacity a1" by (auto split: if_splits)
  from Cons.IH [OF this r] show ?case .
qed

text \<open>Every store built by create and appends is well formed.\<close>

lemma built_wf:
  assumes "1 \<le> C" and "createDynamicArray C = Some a0" and "addDevelopers a0 ds = Some a"
  shows "wf_array a"
proof -
  from assms(1,2) have "wf_array a0" and "1 \<le> capacity a0"
    by (auto simp: createDynamicArray_def wf_array_def)
  from addDevelopers_Some_wf [OF this assms(3)] show ?thesis .
qed

text \<open>
  The capacity along the appends to a fresh store of capacity \<open>C\<close>: it is \<open>C\<close> up to
  \<open>C\<close> records and \<open>2 * C\<close> from there up to \<open>2 * C\<close> records.
\<close>

lemma addDevelopers_append:
  "addDevelopers a (xs @ ys) = addDevelopers a xs \<bind> (\<lambda>b. addDevelopers b ys)"
  by (induction xs arbitrary: a) (simp_all add: Option.bind_assoc)

lemma fresh_run:
  assumes C: "1 \<le> C" and C2: "2 * C \<le> INT_MAX" and len: "int (length ds) \<le> 2 * C"
  shows "\<exists>a. addDevelopers \<lparr>developers = replicate (nat C) None, capacity = C, size_a = 0\<rparr> ds
        = Some a
     \<and> wf_array a \<and> size_a a = int (length ds)
     \<and> capacity a = (if int (length ds) \<le> C then C else 2 * C)"
  using len
proof (induction ds rule: rev_induct)
  case Nil
  with C show ?case by (auto simp: wf_array_def)
next
  case (snoc x xs)
  let ?a0 = "\<lparr>developers = replicate (nat C) None, capacity = C, size_a = 0\<rparr>"
  from snoc.prems have lx: "int (length xs) < 2 * C" by simp
  with snoc.IH obtain b where b: "addDevelopers ?a0 xs = Some b" and wf: "wf_array b"
    and sb: "size_a b = int (length xs)"
    and cb: "capacity b = (if int (length xs) \<le> C then C else 2 * C)"
    by auto
  from cb C have c1: "1 \<le> capacity b" by (simp split: if_splits)
  from sb lx C2 have p1: "size_a b + 1 \<le> INT_MAX" by simp
  from sb cb lx C2 have p2: "size_a b < capacity b \<or> capacity b * 2 \<le> INT_MAX"
    by (auto split: if_splits)
  from addDeveloper_wf [OF wf c1 p1 p2, of x] obtain a where
    a: "addDeveloper b x = Some a" and wfa: "wf_array a" and sa: "size_a a = size_a b + 1"
    and ca: "capacity a = (if size_a b \<ge> capacity b then capacity b * 2 else capacity b)"
    by blast
  have run: "addDevelopers ?a0 (xs @ [x]) = Some a"
    by (simp add: addDevelopers_append b a)
  from ca cb sb lx have "capacity a = (if int (length (xs @ [x])) \<le> C then C else 2 * C)"
    by (auto split: if_splits)
  with run wfa sa sb show ?case by simp
qed

lemma addDeveloper_overflow:
  "size_a a \<ge> capacity a \<Longrightarrow> INT_MAX < capacity a * 2 \<Longrightarrow> addDeveloper a d = None"
  by (simp add: addDeveloper_def resizeArray_def int_mul_def)

lemma fresh_run_last:
  assumes C: "1 \<le> C" and C2: "2 * C \<le> INT_MAX" and len: "int (length ds) = 2 * C + 1"
  shows "(4 * C \<le> INT_MAX \<longrightarrow>
       (\<exists>a. addDevelopers \<lparr>developers = replicate (nat C) None, capacity = C, size_a = 0\<rparr> ds
           = Some a \<and> capacity a = 4 * C))
     \<and> (INT_MAX < 4 * C \<longrightarrow>
       addDevelopers \<lparr>developers = replicate (nat C) None, capacity = C, size_a = 0\<rparr> ds
           = None)"
proof -
  let ?a0 = "\<lparr>developers = replicate (nat C) None, capacity = C, size_a = 0\<rparr>"
  from len C have ne: "ds \<noteq> []" by auto
  then have split: "ds = butlast ds @ [last ds]" by simp
  from ne have "0 < length ds" by simp
  with len have lb: "int (length (butlast ds)) = 2 * C"
    by (simp add: of_nat_diff Suc_le_eq)
  with fresh_run [OF C C2, of "butlast ds"] C obtain b where
    b: "addDevelopers ?a0 (butlast ds) = Some b" and wf: "wf_array b"
    and sb: "size_a b = 2 * C" and cb: "capacity b = 2 * C"
    by auto
  have run: "addDevelopers ?a0 ds = addDeveloper b (last ds)"
    by (subst split) (simp add: addDevelopers_append b)
  have 1: "\<exists>a. addDevelopers ?a0 ds = Some a \<and> capacity a = 4 * C" if "4 * C \<le> INT_MAX"
  proof -
    from cb C have c1: "1 \<le> capacity b" by simp
    from sb that C have p1: "size_a b + 1 \<le> INT_MAX" by simp
    from cb that have p2: "size_a b < capacity b \<or> capacity b * 2 \<le> INT_MAX" by simp
    from addDeveloper_wf [OF wf c1 p1 p2, of "last ds"] sb cb show ?thesis
      by (auto simp: run)
  qed
  have 2: "addDevelopers ?a0 ds = None" if "INT_MAX < 4 * C"
    using that sb cb by (simp add: run addDeveloper_overflow)
  from 1 2 show ?thesis by blast
qed

section \<open>Sorting a sorted range\<close>

lemma partition_loop_all_ge:
  assumes "\<forall>k. j \<le> k \<and> k < high \<longrightarrow> slot_ge p (get_at arr k)"
  shows "partition_loop arr p high (j - 1) j = Some (arr, if j \<le> high then high - 1 else j - 1)"
  using assms
proof (induction "nat (high - j)" arbitrary: j rule: less_induct)
  case less
  show ?case
  proof (cases "j \<le> high - 1")
    case False
    then show ?thesis by (auto simp: loop_exit)
  next
    case True
    with less.prems obtain aj where aj: "get_at arr j = Some aj" and ge: "fge (salary aj) p"
      by (fastforce simp: slot_ge_def)
    have s: "set_at arr (j - 1 + 1) aj = Some arr" "set_at arr j aj = Some arr"
      using aj by (simp_all add: set_at_same)
    have t: "get_at arr (j - 1 + 1) = Some aj" using aj by simp
    have step: "partition_loop arr p high (j - 1) j = partition_loop arr p high (j - 1 + 1) (j + 1)"
      using True aj ge t s by (rule loop_swap)
    have "nat (high - (j + 1)) < nat (high - j)" using True by simp
    from less.hyps [OF this] less.prems
    have "partition_loop arr p high (j + 1 - 1) (j + 1)
        = Some (arr, if j + 1 \<le> high then high - 1 else j + 1 - 1)"
      by simp
    with step True show ?thesis by simp
  qed
qed

lemma partition_arr_sorted:
  assumes "sorted_in arr low high" and "low \<le> high"
  shows "partition_arr arr low high = Some (arr, high)"
proof -
  from assms obtain ah where ah: "get_at arr high = Some ah"
    unfolding sorted_in_def by blast
  have "\<forall>k. low \<le> k \<and> k < high \<longrightarrow> slot_ge (salary ah) (get_at arr k)"
  proof (intro allI impI)
    fix k assume "low \<le> k \<and> k < high"
    with assms(1) have "\<exists>d e. get_at arr k = Some d \<and> get_at arr high = Some e
        \<and> fge (salary d) (salary e)"
      by (simp add: sorted_in_def)
    with ah show "slot_ge (salary ah) (get_at arr k)" by (auto simp: slot_ge_def)
  qed
  from partition_loop_all_ge [OF this] assms(2)
  have loop: "partition_loop arr (salary ah) high (low - 1) low = Some (arr, high - 1)"
    by simp
  show ?thesis
    by (simp add: partition_arr_def ah loop set_at_same)
qed

lemma quickSort_sorted_id:
  assumes "sorted_in arr low high"
  shows "quickSort arr low high = Some arr"
  using assms
proof (induction "nat (high - low)" arbitrary: high rule: less_induct)
  case less
  show ?case
  proof (cases "low < high")
    case False
    then show ?thesis by (simp add: quickSort.simps)
  next
    case True
    then have p: "partition_arr arr low high = Some (arr, high)"
      using less.prems by (simp add: partition_arr_sorted)
    have "nat (high - 1 - low) < nat (high - low)" using True by simp
    from less.hyps [OF this sorted_in_sub [OF less.prems]]
    have l: "quickSort arr low (high - 1) = Some arr" by simp
    have r: "quickSort arr (high + 1) high = Some arr" by (simp add: quickSort.simps)
    show ?thesis
      using True by (subst quickSort.simps) (simp add: p l r)
  qed
qed


section \<open>Stored records\<close>

lemma length_stored: "wf_array a \<Longrightarrow> length (stored a) = nat (size_a a)"
  by (auto simp: stored_def wf_array_def)

lemma get_at_stored:
  assumes "wf_array a" and "0 \<le> k" and "k < size_a a"
  shows "get_at (developers a) k = Some (stored a ! nat k)"
proof -
  from assms have "get_at (developers a) k \<noteq> None" by (simp add: wf_array_def)
  moreover from assms have "nat k < length (developers a)" "nat k < nat (size_a a)"
    by (auto simp: wf_array_def)
  ultimately show ?thesis using assms(2)
    by (auto simp: stored_def get_at_def split: if_splits)
qed

lemma get_at_nat: "i < length arr \<Longrightarrow> get_at arr (int i) = arr ! i"
  by (simp add: get_at_def)

lemma perm_in_take:
  assumes p: "perm_in {0..n - 1} arr arr'" and n: "0 \<le> n"
  shows "mset (take (nat n) arr') = mset (take (nat n) arr)"
proof -
  from p have len: "length arr' = length arr" and ms: "mset arr' = mset arr"
    and out: "\<And>k. k \<notin> {0..n - 1} \<Longrightarrow> get_at arr' k = get_at arr k"
    by (simp_all add: perm_in_def)
  have "drop (nat n) arr' = drop (nat n) arr"
  proof (rule nth_equalityI)
    show "length (drop (nat n) arr') = length (drop (nat n) arr)" by (simp add: len)
  next
    fix i assume i: "i < length (drop (nat n) arr')"
    then have b: "nat n + i < length arr" by (simp add: len)
    have "int (nat n + i) \<notin> {0..n - 1}" using n by simp
    from out [OF this] have "get_at arr' (int (nat n + i)) = get_at arr (int (nat n + i))" .
    moreover have "get_at arr' (int (nat n + i)) = arr' ! (nat n + i)"
      using b by (intro get_at_nat) (simp add: len)
    moreover have "get_at arr (int (nat n + i)) = arr ! (nat n + i)"
      using b by (intro get_at_nat)
    ultimately have "arr' ! (nat n + i) = arr ! (nat n + i)" by (simp only:)
    with b show "drop (nat n) arr' ! i = drop (nat n) arr ! i" by (simp add: len)
  qed
  moreover have "mset (take (nat n) arr') + mset (drop (nat n) arr')
      = mset (take (nat n) arr) + mset (drop (nat n) arr)"
    using ms by (simp flip: mset_append)
  ultimately show ?thesis by simp
qed

section \<open>Sorting the indexed store\<close>

lemma sorted_inD:
  "sorted_in arr low high \<Longrightarrow> low \<le> k \<Longrightarrow> k \<le> l \<Longrightarrow> l \<le> high \<Longrightarrow>
     \<exists>d e. get_at arr k = Some d \<and> get_at arr l = Some e \<and> fge (salary d) (salary e)"
  by (simp add: sorted_in_def)

text \<open>
  C3 (as amended). For every well-formed indexed store none of whose stored salaries is
  NaN: \<open>sortDevelopersBySalary\<close> returns a store, sorting that store again returns it
  unchanged, and in it the salaries read from index 0 upward do not increase. The
  stored records are those of before, rearranged; size and capacity are as before.
\<close>

theorem sort_idempotent_nonincreasing:
  assumes wf: "wf_array a" and num: "NaN \<notin> salary ` set (stored a)"
  shows "\<exists>a1. sortDevelopersBySalary a = Some a1
     \<and> sortDevelopersBySalary a1 = Some a1
     \<and> sorted_wrt fge (map salary (stored a1))
     \<and> mset (stored a1) = mset (stored a)
     \<and> size_a a1 = size_a a \<and> capacity a1 = capacity a \<and> wf_array a1"
proof (cases "size_a a > 1")
  case False
  with wf have "length (stored a) \<le> 1" by (simp add: length_stored)
  then have "sorted_wrt fge (map salary (stored a))"
    by (cases "stored a") simp_all
  with False wf show ?thesis by (simp add: sortDevelopersBySalary_def)
next
  case True
  let ?n = "size_a a"
  let ?arr = "developers a"
  have numin: "numbers_in ?arr 0 (?n - 1)"
    unfolding numbers_in_def
  proof (intro allI impI)
    fix k assume k: "0 \<le> k \<and> k \<le> ?n - 1"
    with wf have g: "get_at ?arr k = Some (stored a ! nat k)" by (simp add: get_at_stored)
    from k wf have "stored a ! nat k \<in> set (stored a)" by (simp add: length_stored)
    with num have "salary (stored a ! nat k) \<noteq> NaN" by force
    with g show "\<exists>d. get_at ?arr k = Some d \<and> salary d \<noteq> NaN" by simp
  qed
  from quickSort_sorts [OF this] obtain arr' where
    q: "quickSort ?arr 0 (?n - 1) = Some arr'"
    and p: "perm_in {0..?n - 1} ?arr arr'" and so: "sorted_in arr' 0 (?n - 1)"
    by blast
  let ?a1 = "a\<lparr>developers := arr'\<rparr>"
  have r1: "sortDevelopersBySalary a = Some ?a1"
    using True by (simp add: sortDevelopersBySalary_def q)
  have "quickSort arr' 0 (?n - 1) = Some arr'" using so by (rule quickSort_sorted_id)
  then have r2: "sortDevelopersBySalary ?a1 = Some ?a1"
    using True by (simp add: sortDevelopersBySalary_def)
  from p have len: "length arr' = length ?arr" by (simp add: perm_in_def)
  have init: "get_at arr' k \<noteq> None" if "0 \<le> k" "k < ?n" for k
    using sorted_inD [OF so, of k k] that by auto
  have wf1: "wf_array ?a1"
    using wf init by (simp add: wf_array_def len)
  have sorted: "sorted_wrt fge (map salary (stored ?a1))"
    unfolding sorted_wrt_iff_nth_less
  proof (intro allI impI)
    fix i j assume ij: "i < j" and j: "j < length (map salary (stored ?a1))"
    with wf1 have jn: "int j < ?n" by (simp add: length_stored)
    with ij sorted_inD [OF so, of "int i" "int j"]
    obtain d e where d: "get_at arr' (int i) = Some d"
      and e: "get_at arr' (int j) = Some e" and ge: "fge (salary d) (salary e)"
      by auto
    from get_at_stored [OF wf1, of "int i"] get_at_stored [OF wf1, of "int j"] ij jn d e
    have "stored ?a1 ! i = d" "stored ?a1 ! j = e" by simp_all
    with ge ij j show "fge (map salary (stored ?a1) ! i) (map salary (stored ?a1) ! j)"
      by simp
  qed
  have "mset (take (nat ?n) arr') = mset (take (nat ?n) ?arr)"
    using p True by (intro perm_in_take) simp_all
  then have "mset (map the (take (nat ?n) arr')) = mset (map the (take (nat ?n) ?arr))"
    by simp
  then have ms: "mset (stored ?a1) = mset (stored a)" by (simp add: stored_def)
  from r1 r2 sorted ms wf1 show ?thesis by simp
qed

text \<open>The sample records of \<open>main\<close>, sorted.\<close>

lemma sample_salaries:
  "salary dev1 = Fin 85000" "salary dev2 = Fin 90000"
  "salary dev3 = Fin 82000" "salary dev4 = Fin 88000"
  by (simp_all add: dev1_def dev2_def dev3_def dev4_def)

lemmas run_sort = quickSort.simps partition_arr_def partition_loop.simps get_at_def set_at_def
  fge_def sample_salaries

lemma sort_samples:
  "quickSort [Some dev1, Some dev2, Some dev3, Some dev4] 0 3
     = Some [Some dev2, Some dev4, Some dev1, Some dev3]"
  by (simp add: run_sort)


theorem sort_idempotent_nonincreasing_witness:
  "wf_array \<lparr>developers = [Some dev1, Some dev2, Some dev3, Some dev4], capacity = 4, size_a = 4\<rparr>
   \<and> NaN \<notin> salary ` set (stored
        \<lparr>developers = [Some dev1, Some dev2, Some dev3, Some dev4], capacity = 4, size_a = 4\<rparr>)
   \<and> sortDevelopersBySalary
        \<lparr>developers = [Some dev1, Some dev2, Some dev3, Some dev4], capacity = 4, size_a = 4\<rparr>
      = Some \<lparr>developers = [Some dev2, Some dev4, Some dev1, Some dev3], capacity = 4, size_a = 4\<rparr>
   \<and> sortDevelopersBySalary
        \<lparr>developers = [Some dev2, Some dev4, Some dev1, Some dev3], capacity = 4, size_a = 4\<rparr>
      = Some \<lparr>developers = [Some dev2, Some dev4, Some dev1, Some dev3], capacity = 4, size_a = 4\<rparr>
   \<and> sorted_wrt fge (map salary (stored
        \<lparr>developers = [Some dev2, Some dev4, Some dev1, Some dev3], capacity = 4, size_a = 4\<rparr>))"
proof -
  let ?s = "\<lparr>developers = [Some dev1, Some dev2, Some dev3, Some dev4], capacity = 4, size_a = 4\<rparr>"
  let ?t = "\<lparr>developers = [Some dev2, Some dev4, Some dev1, Some dev3], capacity = 4, size_a = 4\<rparr>"
  have wf: "wf_array ?s"
    by (auto simp: wf_array_def get_at_def nth_Cons' )
  have num: "NaN \<notin> salary ` set (stored ?s)"
    by (simp add: stored_def sample_salaries)
  have run: "sortDevelopersBySalary ?s = Some ?t"
    by (simp add: sortDevelopersBySalary_def sort_samples)
  from sort_idempotent_nonincreasing [OF wf num] run
  have "sortDevelopersBySalary ?t = Some ?t" and "sorted_wrt fge (map salary (stored ?t))"
    by auto
  with wf num run show ?thesis by simp
qed

text \<open>
  The claim as stated fails on a store holding a NaN salary: the first sample record
  followed by a record with salary NaN is sorted to the opposite order, where NaN stands
  before 85000, and sorting that result gives the first order back.
\<close>

theorem sort_nan_counterexample:
  "sortDevelopersBySalary
      \<lparr>developers = [Some dev1, Some (dev2\<lparr>salary := NaN\<rparr>)], capacity = 2, size_a = 2\<rparr>
    = Some \<lparr>developers = [Some (dev2\<lparr>salary := NaN\<rparr>), Some dev1], capacity = 2, size_a = 2\<rparr>
   \<and> sortDevelopersBySalary
      \<lparr>developers = [Some (dev2\<lparr>salary := NaN\<rparr>), Some dev1], capacity = 2, size_a = 2\<rparr>
    = Some \<lparr>developers = [Some dev1, Some (dev2\<lparr>salary := NaN\<rparr>)], capacity = 2, size_a = 2\<rparr>
   \<and> [Some dev1, Some (dev2\<lparr>salary := NaN\<rparr>)] \<noteq> [Some (dev2\<lparr>salary := NaN\<rparr>), Some dev1]
   \<and> \<not> sorted_wrt fge (map salary (stored
      \<lparr>developers = [Some (dev2\<lparr>salary := NaN\<rparr>), Some dev1], capacity = 2, size_a = 2\<rparr>))"
proof -
  have ne: "dev1 \<noteq> dev2\<lparr>salary := NaN\<rparr>"
    by (simp add: dev1_def dev2_def)
  have 1: "quickSort [Some dev1, Some (dev2\<lparr>salary := NaN\<rparr>)] 0 1
      = Some [Some (dev2\<lparr>salary := NaN\<rparr>), Some dev1]"
    by (simp add: run_sort)
  have 2: "quickSort [Some (dev2\<lparr>salary := NaN\<rparr>), Some dev1] 0 1
      = Some [Some dev1, Some (dev2\<lparr>salary := NaN\<rparr>)]"
    by (simp add: run_sort)
  show ?thesis
    using ne by (simp add: sortDevelopersBySalary_def 1 2 stored_def fge_def)
qed

section \<open>Growth\<close>

text \<open>
  C4 (as amended). A store created with capacity \<open>C\<close>, at least 1 and with \<open>4 * C\<close> in the
  range of int, to which \<open>2 * C + 1\<close> records are appended: all appends return, the
  capacity is then at least \<open>2 * C + 1\<close> (it is \<open>4 * C\<close>, the number of slots of the
  block), the size is \<open>2 * C + 1\<close>, and for every \<open>i\<close> the slot at index \<open>i\<close> holds the
  \<open>i\<close>-th record appended. The same holds on the way: after the first \<open>n\<close> appends the
  size is \<open>n\<close>, within the capacity, and the records appended so far are at their indices.
\<close>

theorem append_growth:
  assumes "1 \<le> C" and "4 * C \<le> INT_MAX" and "int (length ds) = 2 * C + 1"
  shows "\<exists>a0 a. createDynamicArray C = Some a0 \<and> addDevelopers a0 ds = Some a
     \<and> 2 * C + 1 \<le> capacity a \<and> capacity a = 4 * C \<and> size_a a = 2 * C + 1
     \<and> int (length (developers a)) = capacity a
     \<and> (\<forall>i<length ds. get_at (developers a) (int i) = Some (ds ! i))
     \<and> (\<forall>n\<le>length ds. \<exists>b. addDevelopers a0 (take n ds) = Some b \<and> size_a b = int n
           \<and> size_a b \<le> capacity b
           \<and> (\<forall>i<n. get_at (developers b) (int i) = Some (ds ! i)))"
proof -
  let ?a0 = "\<lparr>developers = replicate (nat C) None, capacity = C, size_a = 0\<rparr>"
  have c: "createDynamicArray C = Some ?a0"
    using assms(1) by (simp add: createDynamicArray_def)
  have wf0: "wf_array ?a0" using assms(1) by (auto simp: wf_array_def)
  have c0: "1 \<le> capacity ?a0" using assms(1) by simp
  have b0: "2 * (size_a ?a0 + int (length ds)) \<le> INT_MAX + 2"
    using assms(2,3) by simp
  from addDevelopers_wf [OF wf0 c0 b0] obtain a where
    r: "addDevelopers ?a0 ds = Some a" and wf: "wf_array a"
    and s: "size_a a = int (length ds)"
    and e: "\<forall>i<length ds. get_at (developers a) (int i) = Some (ds ! i)"
    by auto
  have pre: "\<exists>b. addDevelopers ?a0 (take n ds) = Some b \<and> size_a b = int n
      \<and> size_a b \<le> capacity b
      \<and> (\<forall>i<n. get_at (developers b) (int i) = Some (ds ! i))" if "n \<le> length ds" for n
  proof -
    from that b0 have "2 * (size_a ?a0 + int (length (take n ds))) \<le> INT_MAX + 2" by simp
    from addDevelopers_wf [OF wf0 c0 this] that obtain b where
      "addDevelopers ?a0 (take n ds) = Some b" and "wf_array b" and "size_a b = int n"
      and "\<forall>i<n. get_at (developers b) (int i) = Some (take n ds ! i)"
      by auto
    then show ?thesis by (auto simp: wf_array_def)
  qed
  from assms have "2 * C \<le> INT_MAX" by simp
  from fresh_run_last [OF assms(1) this assms(3)] assms(2) r
  have cap: "capacity a = 4 * C" by auto
  from wf s assms(3) have "2 * C + 1 \<le> capacity a" "int (length (developers a)) = capacity a"
    by (simp_all add: wf_array_def)
  with c r s e assms(3) pre cap show ?thesis by simp
qed

theorem append_growth_witness:
  "(1::int) \<le> 1 \<and> 4 * 1 \<le> INT_MAX \<and> int (length [dev1, dev2, dev3]) = 2 * 1 + 1
   \<and> createDynamicArray 1 = Some \<lparr>developers = [None], capacity = 1, size_a = 0\<rparr>
   \<and> addDevelopers \<lparr>developers = [None], capacity = 1, size_a = 0\<rparr> [dev1, dev2, dev3]
       = Some \<lparr>developers = [Some dev1, Some dev2, Some dev3, None], capacity = 4, size_a = 3\<rparr>
   \<and> get_at [Some dev1, Some dev2, Some dev3, None] 2 = Some dev3"
proof -
  have h1: "(1::int) \<le> 1" and h2: "4 * 1 \<le> INT_MAX"
    and h3: "int (length [dev1, dev2, dev3]) = 2 * 1 + 1"
    by (simp_all add: INT_MAX_def)
  have c: "createDynamicArray 1 = Some \<lparr>developers = [None], capacity = 1, size_a = 0\<rparr>"
    by (simp add: createDynamicArray_def)
  have r: "addDevelopers \<lparr>developers = [None], capacity = 1, size_a = 0\<rparr> [dev1, dev2, dev3]
       = Some \<lparr>developers = [Some dev1, Some dev2, Some dev3, None], capacity = 4, size_a = 3\<rparr>"
    by (simp add: addDeveloper_def resizeArray_def realloc_buf_def set_at_def int_mul_def
        int_add_def INT_MAX_def INT_MIN_def eval_nat_numeral)
  from append_growth [OF h1 h2 h3] c r
  have "get_at [Some dev1, Some dev2, Some dev3, None] (int 2) = Some ([dev1, dev2, dev3] ! 2)"
    by auto
  with h1 h2 h3 c r show ?thesis by simp
qed

text \<open>
  The claim as stated fails at capacity \<open>2 ^ 29\<close>: the store is created, and of the
  \<open>2 ^ 30 + 1\<close> appends the last one finds the block full at capacity \<open>2 ^ 30\<close>, whose
  double is outside the range of int. The run does not end in a store.
\<close>

theorem append_growth_counterexample:
  "(1::int) \<le> 536870912
   \<and> int (length (replicate 1073741825 dev1)) = 2 * 536870912 + 1
   \<and> createDynamicArray 536870912
       = Some \<lparr>developers = replicate 536870912 None, capacity = 536870912, size_a = 0\<rparr>
   \<and> addDevelopers \<lparr>developers = replicate 536870912 None, capacity = 536870912, size_a = 0\<rparr>
         (replicate 1073741825 dev1)
       = None"
proof -
  have h1: "(1::int) \<le> 536870912" and h2: "2 * 536870912 \<le> INT_MAX"
    and h3: "int (length (replicate 1073741825 dev1)) = 2 * 536870912 + 1"
    and h4: "INT_MAX < 4 * 536870912"
    by (simp_all add: INT_MAX_def)
  have n: "nat 536870912 = 536870912" by simp
  have c: "createDynamicArray 536870912
       = Some \<lparr>developers = replicate 536870912 None, capacity = 536870912, size_a = 0\<rparr>"
    by (simp add: createDynamicArray_def)
  from fresh_run_last [OF h1 h2 h3] h4
  have "addDevelopers \<lparr>developers = replicate 536870912 None, capacity = 536870912, size_a = 0\<rparr>
         (replicate 1073741825 dev1) = None"
    unfolding n by blast
  with h1 h3 c show ?thesis by blast
qed

section \<open>Termination\<close>



end
